theory Spec2Isabelle
  imports Main
begin

section \<open>ktsignal: the slot registry and its connection handles\<close>

text \<open>
  The header \<^verbatim>\<open>include/ktsignal.hpp\<close> defines one class template,
  \<^verbatim>\<open>ktsignal_impl<FuncSig, thread_safe, emit_thread_safe>\<close>. Its state is the member
  \<^verbatim>\<open>std::list<slot_type> slots_\<close> (and a mutex). The operations are embedded below as
  functions that take the signal and return the updated one. Names are the source's;
  the members \<^verbatim>\<open>slots_\<close> and \<^verbatim>\<open>iter_\<close> are written \<open>slots\<close> and \<open>iter\<close>.

  A \<^verbatim>\<open>std::list\<close> iterator names a list node and stays valid until that very node is
  erased. A node is modelled by a number that \<^verbatim>\<open>emplace\<close> hands out fresh
  (\<open>next_node\<close>), so the registry is the list of its nodes in order, each with the slot it
  stores. An iterator to an erased node is invalid for ever after; passing it to
  \<^verbatim>\<open>erase\<close> or dereferencing it is undefined behaviour, which the model reports as the
  value \<open>InvalidIterator\<close> instead of hiding it.
\<close>

type_synonym node = nat

datatype error =
    BadFunctionCall   \<comment> \<open>\<^verbatim>\<open>std::bad_function_call\<close>: an empty \<^verbatim>\<open>std::function\<close> was called\<close>
  | InvalidIterator   \<comment> \<open>undefined behaviour: the iterator names no element of the list\<close>
  | DanglingReference \<comment> \<open>undefined behaviour: the object referred to no longer exists\<close>

subsection \<open>Calling a slot\<close>

text \<open>
  \<^verbatim>\<open>slot_type = std::function<FuncSig>\<close>. A slot body reads its parameter and the
  rest of the program's state (the world \<open>'w\<close>, which does not contain the signal: a
  slot that re-enters its own signal is outside the model, as it is outside the
  specification), and either throws (\<open>Inl\<close>) or returns a result (\<open>Inr\<close>); it leaves a
  final value in its parameter and a new world.

  How the caller's argument object is bound to the parameter is decided by \<^verbatim>\<open>FuncSig\<close>
  and by the value category of the forwarded expression:
  \<^item> a reference parameter aliases the caller's object, so what the body leaves in its
    parameter is what the caller's object holds afterwards;
  \<^item> a by-value parameter is a fresh object, copy-constructed from an lvalue and
    move-constructed from an rvalue; the move constructor leaves the caller's object
    in the moved-from state of its type (\<open>moved_from\<close>: the identity for \<^verbatim>\<open>int\<close>, the
    empty string for \<^verbatim>\<open>std::string\<close> in the usual libraries).
\<close>

datatype param_kind = ByValue | ByReference

datatype value_category = Lvalue | Rvalue

record 'a func_sig =
  param :: param_kind
  moved_from :: "'a \<Rightarrow> 'a"

type_synonym ('a, 'r, 'e, 'w) slot_type = "'a \<Rightarrow> 'w \<Rightarrow> ('e + 'r) \<times> 'a \<times> 'w"

definition invoke ::
  "'a func_sig \<Rightarrow> value_category \<Rightarrow> ('a, 'r, 'e, 'w) slot_type \<Rightarrow> 'a \<Rightarrow> 'w
     \<Rightarrow> ('e + 'r) \<times> 'a \<times> 'w" where
  "invoke sg cat f a w =
     (case param sg of
        ByReference \<Rightarrow> f a w
      | ByValue \<Rightarrow>
          (case f a w of
             (out, _, w') \<Rightarrow>
               (out, (case cat of Lvalue \<Rightarrow> a | Rvalue \<Rightarrow> moved_from sg a), w')))"

text \<open>
  The record \<open>run_state\<close> is what a sequence of slot calls threads along: the caller's
  argument object, the world, and the log of the calls made so far (the node whose slot
  was invoked and the argument value it was handed).
\<close>

record ('a, 'w) run_state =
  args :: 'a
  world :: 'w
  calls :: "(node \<times> 'a) list"

definition call_slot ::
  "'a func_sig \<Rightarrow> value_category \<Rightarrow> node \<Rightarrow> ('a, 'r, 'e, 'w) slot_type
     \<Rightarrow> ('a, 'w) run_state \<Rightarrow> ('e + 'r) \<times> ('a, 'w) run_state" where
  "call_slot sg cat n f st =
     (case invoke sg cat f (args st) (world st) of
        (out, a', w') \<Rightarrow>
          (out, \<lparr>args = a', world = w', calls = calls st @ [(n, args st)]\<rparr>))"

subsection \<open>The signal, connect and disconnect\<close>

record ('a, 'r, 'e, 'w) signal =
  slots :: "(node \<times> ('a, 'r, 'e, 'w) slot_type) list"
  next_node :: node

definition empty_signal :: "('a, 'r, 'e, 'w) signal" where
  "empty_signal = \<lparr>slots = [], next_node = 0\<rparr>"

definition nodes :: "('a, 'r, 'e, 'w) signal \<Rightarrow> node list" where
  "nodes sig = map fst (slots sig)"

text \<open>
  \<^verbatim>\<open>std::function<void()> erase_func\<close> of a connection holds one of three things: the
  lambda built by \<^verbatim>\<open>connect\<close>, which captured \<^verbatim>\<open>erase_iter\<close>; the lambda \<^verbatim>\<open>[]() {}\<close>
  that \<^verbatim>\<open>disconnect\<close> assigns; or nothing at all (a moved-from \<^verbatim>\<open>std::function\<close>).
  The captured references to the signal's mutex and list are the signal the operation
  is applied to: the model has one signal per handle.
\<close>

datatype erase_fn = NoTarget | EraseLambda node | NoopLambda

record ktsignal_connection =
  erase_func :: erase_fn

text \<open>\<^verbatim>\<open>slots_.erase(erase_iter)\<close>: unlink the node the iterator names.\<close>

fun list_erase :: "node \<Rightarrow> (node \<times> 's) list \<Rightarrow> (node \<times> 's) list option" where
  "list_erase n [] = None"
| "list_erase n ((k, f) # xs) =
     (if k = n then Some xs else map_option (Cons (k, f)) (list_erase n xs))"

text \<open>
  \<^verbatim>\<open>connect(slot_type slot)\<close>, lines 52-62: \<^verbatim>\<open>emplace(slots_.end(), slot)\<close> appends a
  new node, and the returned connection holds the lambda that erases that node.
  \<^verbatim>\<open>scoped_connect\<close>, lines 63-73, has the same body and returns the derived class.
\<close>

definition connect ::
  "('a, 'r, 'e, 'w) signal \<Rightarrow> ('a, 'r, 'e, 'w) slot_type
     \<Rightarrow> ktsignal_connection \<times> ('a, 'r, 'e, 'w) signal" where
  "connect sig slot =
     (let erase_iter = next_node sig in
        (\<lparr>erase_func = EraseLambda erase_iter\<rparr>,
         sig\<lparr>slots := slots sig @ [(erase_iter, slot)], next_node := Suc erase_iter\<rparr>))"

definition scoped_connect ::
  "('a, 'r, 'e, 'w) signal \<Rightarrow> ('a, 'r, 'e, 'w) slot_type
     \<Rightarrow> ktsignal_connection \<times> ('a, 'r, 'e, 'w) signal" where
  "scoped_connect sig slot =
     (let erase_iter = next_node sig in
        (\<lparr>erase_func = EraseLambda erase_iter\<rparr>,
         sig\<lparr>slots := slots sig @ [(erase_iter, slot)], next_node := Suc erase_iter\<rparr>))"

text \<open>Calling \<^verbatim>\<open>erase_func()\<close>.\<close>

definition call_erase_func ::
  "erase_fn \<Rightarrow> ('a, 'r, 'e, 'w) signal \<Rightarrow> error + ('a, 'r, 'e, 'w) signal" where
  "call_erase_func ef sig =
     (case ef of
        NoTarget \<Rightarrow> Inl BadFunctionCall
      | NoopLambda \<Rightarrow> Inr sig
      | EraseLambda erase_iter \<Rightarrow>
          (case list_erase erase_iter (slots sig) of
             None \<Rightarrow> Inl InvalidIterator
           | Some xs \<Rightarrow> Inr (sig\<lparr>slots := xs\<rparr>)))"

text \<open>
  \<^verbatim>\<open>disconnect()\<close>, lines 32-35: \<^verbatim>\<open>erase_func(); erase_func = []() {};\<close>. When the call
  throws, the assignment is not reached and the exception leaves \<^verbatim>\<open>disconnect\<close>.
\<close>

definition disconnect ::
  "ktsignal_connection \<Rightarrow> ('a, 'r, 'e, 'w) signal
     \<Rightarrow> error + (ktsignal_connection \<times> ('a, 'r, 'e, 'w) signal)" where
  "disconnect c sig =
     (case call_erase_func (erase_func c) sig of
        Inl e \<Rightarrow> Inl e
      | Inr sig' \<Rightarrow> Inr (c\<lparr>erase_func := NoopLambda\<rparr>, sig'))"

text \<open>Calling \<^verbatim>\<open>disconnect()\<close> \<open>n\<close> times in a row on the same connection.\<close>

fun disconnect_times ::
  "nat \<Rightarrow> ktsignal_connection \<Rightarrow> ('a, 'r, 'e, 'w) signal
     \<Rightarrow> error + (ktsignal_connection \<times> ('a, 'r, 'e, 'w) signal)" where
  "disconnect_times 0 c sig = Inr (c, sig)"
| "disconnect_times (Suc n) c sig =
     (case disconnect c sig of
        Inl e \<Rightarrow> Inl e
      | Inr (c', sig') \<Rightarrow> disconnect_times n c' sig')"

text \<open>
  The state a signal built by \<^verbatim>\<open>connect\<close> and \<^verbatim>\<open>disconnect\<close> is always in: its nodes
  are pairwise different and were all handed out already.
\<close>

definition wf_signal :: "('a, 'r, 'e, 'w) signal \<Rightarrow> bool" where
  "wf_signal sig = (distinct (nodes sig) \<and> list_all (\<lambda>n. n < next_node sig) (nodes sig))"

text \<open>
  A connection is attached to a signal when it holds the erase lambda for a node that
  is in the registry, or the no-op lambda of an earlier disconnect. That is the state
  of every connection \<^verbatim>\<open>connect\<close> returned, for as long as it has not been moved from.
\<close>

definition attached :: "ktsignal_connection \<Rightarrow> ('a, 'r, 'e, 'w) signal \<Rightarrow> bool" where
  "attached c sig =
     (case erase_func c of
        EraseLambda n \<Rightarrow> n \<in> set (nodes sig)
      | NoopLambda \<Rightarrow> True
      | NoTarget \<Rightarrow> False)"

subsection \<open>Client programs: sequences of connects and disconnects\<close>

text \<open>
  A client of one signal keeps the connections \<^verbatim>\<open>connect\<close> returned to it, in the
  order it got them. \<open>Connect f\<close> calls \<^verbatim>\<open>connect(f)\<close> and stores the handle;
  \<open>Disconnect k\<close> calls \<^verbatim>\<open>disconnect()\<close> on the \<open>k\<close>-th handle it holds (counting from
  0), and is skipped when the client holds no such handle yet.
\<close>

datatype ('a, 'r, 'e, 'w) op =
    Connect "('a, 'r, 'e, 'w) slot_type"
  | Disconnect nat

record ('a, 'r, 'e, 'w) client =
  sig_of :: "('a, 'r, 'e, 'w) signal"
  handles :: "ktsignal_connection list"

fun step :: "('a, 'r, 'e, 'w) client \<Rightarrow> ('a, 'r, 'e, 'w) op \<Rightarrow> error + ('a, 'r, 'e, 'w) client" where
  "step cl (Connect f) =
     (case connect (sig_of cl) f of
        (c, sig') \<Rightarrow> Inr \<lparr>sig_of = sig', handles = handles cl @ [c]\<rparr>)"
| "step cl (Disconnect k) =
     (if k < length (handles cl) then
        (case disconnect (handles cl ! k) (sig_of cl) of
           Inl e \<Rightarrow> Inl e
         | Inr (c', sig') \<Rightarrow> Inr \<lparr>sig_of = sig', handles = (handles cl)[k := c']\<rparr>)
      else Inr cl)"

fun run :: "('a, 'r, 'e, 'w) client \<Rightarrow> ('a, 'r, 'e, 'w) op list \<Rightarrow> error + ('a, 'r, 'e, 'w) client" where
  "run cl [] = Inr cl"
| "run cl (x # xs) = (case step cl x of Inl e \<Rightarrow> Inl e | Inr cl' \<Rightarrow> run cl' xs)"

definition new_client :: "('a, 'r, 'e, 'w) client" where
  "new_client = \<lparr>sig_of = empty_signal, handles = []\<rparr>"

text \<open>
  What the specification expects of the registry after such a program (section 8:
  "exactly the slots not yet disconnected, in original relative order"), written from
  its words and independently of the operations above: go through the program, number
  the connects from \<open>k\<close> on, and keep the slot of a connect unless a disconnect of its
  handle follows.
\<close>

fun is_disconnect_of :: "nat \<Rightarrow> ('a, 'r, 'e, 'w) op \<Rightarrow> bool" where
  "is_disconnect_of k (Disconnect j) = (j = k)"
| "is_disconnect_of k (Connect f) = False"

fun not_yet_disconnected ::
  "nat \<Rightarrow> ('a, 'r, 'e, 'w) op list \<Rightarrow> (node \<times> ('a, 'r, 'e, 'w) slot_type) list" where
  "not_yet_disconnected k [] = []"
| "not_yet_disconnected k (Connect f # ops) =
     (if list_ex (is_disconnect_of k) ops then not_yet_disconnected (Suc k) ops
      else (k, f) # not_yet_disconnected (Suc k) ops)"
| "not_yet_disconnected k (Disconnect j # ops) = not_yet_disconnected k ops"

text \<open>
  What holds of a client and its signal at every point of such a program: the \<open>k\<close>-th
  handle was given node \<open>k\<close>, and it holds the erase lambda for as long as that node is
  in the registry and the no-op lambda afterwards.
\<close>

definition client_inv :: "('a, 'r, 'e, 'w) client \<Rightarrow> bool" where
  "client_inv cl =
     (wf_signal (sig_of cl) \<and> next_node (sig_of cl) = length (handles cl)
      \<and> (\<forall>k < length (handles cl).
            (if k \<in> set (nodes (sig_of cl)) then erase_func (handles cl ! k) = EraseLambda k
             else erase_func (handles cl ! k) = NoopLambda)))"

subsection \<open>Scoped connections and moving\<close>

text \<open>
  \<^verbatim>\<open>ktsignal_scoped_connection\<close>, lines 43-50, is a \<^verbatim>\<open>ktsignal_connection\<close> whose
  destructor calls \<^verbatim>\<open>disconnect()\<close>. A destructor is \<^verbatim>\<open>noexcept\<close>: an exception that
  leaves it ends the program through \<^verbatim>\<open>std::terminate\<close>. \<open>destroy_scoped\<close> returns
  that exception as \<open>Inl\<close>, and the signal after a normal destruction as \<open>Inr\<close>.
\<close>

type_synonym ktsignal_scoped_connection = ktsignal_connection

definition destroy_scoped ::
  "ktsignal_scoped_connection \<Rightarrow> ('a, 'r, 'e, 'w) signal \<Rightarrow> error + ('a, 'r, 'e, 'w) signal" where
  "destroy_scoped c sig =
     (case disconnect c sig of Inl e \<Rightarrow> Inl e | Inr (c', sig') \<Rightarrow> Inr sig')"

text \<open>
  Both classes declare their move constructor \<^verbatim>\<open>= default\<close>: it move-constructs the
  member \<^verbatim>\<open>erase_func\<close>. The move constructor of \<^verbatim>\<open>std::function\<close> gives the target to
  the new object and leaves the source "in a valid state with an unspecified value".
  libstdc++, libc++ (for a callable of this size) and the Microsoft library leave the
  source without a target; a library may also leave the source holding the target it
  had. \<open>residue\<close> says which.
\<close>

datatype residue = LeftEmpty | LeftTarget

definition move_function :: "residue \<Rightarrow> erase_fn \<Rightarrow> erase_fn \<times> erase_fn" where
  "move_function r ef = (ef, (case r of LeftEmpty \<Rightarrow> NoTarget | LeftTarget \<Rightarrow> ef))"

text \<open>The result is the pair of the newly constructed object and the moved-from one.\<close>

definition move_connection ::
  "residue \<Rightarrow> ktsignal_connection \<Rightarrow> ktsignal_connection \<times> ktsignal_connection" where
  "move_connection r right =
     (case move_function r (erase_func right) of
        (target, source) \<Rightarrow> (\<lparr>erase_func = target\<rparr>, right\<lparr>erase_func := source\<rparr>))"

subsection \<open>Emission\<close>

text \<open>
  \<^verbatim>\<open>emit(Args&&... args)\<close>, lines 84-90: the range-for over \<^verbatim>\<open>slots_\<close> calls
  \<^verbatim>\<open>f(std::forward<Args>(args)...)\<close> for each slot in list order. \<open>cat\<close> is the value
  category \<^verbatim>\<open>Args\<close> was deduced from: \<^verbatim>\<open>std::forward\<close> passes an lvalue on as an
  lvalue and an rvalue as an rvalue, in every round of the loop. Nothing is caught, so
  the first exception ends the loop and leaves \<^verbatim>\<open>emit\<close>. The results of the slots are
  discarded.
\<close>

fun emit_loop ::
  "'a func_sig \<Rightarrow> value_category \<Rightarrow> (node \<times> ('a, 'r, 'e, 'w) slot_type) list
     \<Rightarrow> ('a, 'w) run_state \<Rightarrow> 'e option \<times> ('a, 'w) run_state" where
  "emit_loop sg cat [] st = (None, st)"
| "emit_loop sg cat ((n, f) # fs) st =
     (case call_slot sg cat n f st of
        (Inl e, st') \<Rightarrow> (Some e, st')
      | (Inr r, st') \<Rightarrow> emit_loop sg cat fs st')"

definition emit ::
  "'a func_sig \<Rightarrow> value_category \<Rightarrow> ('a, 'r, 'e, 'w) signal \<Rightarrow> 'a \<Rightarrow> 'w
     \<Rightarrow> 'e option \<times> ('a, 'w) run_state" where
  "emit sg cat sig a w = emit_loop sg cat (slots sig) \<lparr>args = a, world = w, calls = []\<rparr>"

text \<open>
  A slot keeps the argument when a call of it, made in the way \<^verbatim>\<open>emit\<close> makes it,
  leaves the caller's argument object as it found it. A by-value parameter fed from an
  lvalue always does (it is a copy); a reference parameter does when the body does not
  write through it.
\<close>

definition keeps_argument ::
  "'a func_sig \<Rightarrow> value_category \<Rightarrow> ('a, 'r, 'e, 'w) slot_type \<Rightarrow> bool" where
  "keeps_argument sg cat f = (\<forall>a w. fst (snd (invoke sg cat f a w)) = a)"



subsection \<open>Result iteration\<close>

text \<open>
  \<^verbatim>\<open>slot_iterator\<close> is \<^verbatim>\<open>std::list<slot_type>::iterator\<close>: it names a node or is the
  past-the-end iterator. \<^verbatim>\<open>begin()\<close> names the first node (the end of an empty
  list), and \<^verbatim>\<open>iter_++\<close> goes to the node after the one named, as the list is at that
  moment. Incrementing or dereferencing the end iterator, or an iterator to a node no
  longer in the list, is undefined behaviour.
\<close>

datatype slot_iterator = AtNode node | AtEnd

definition list_begin :: "(node \<times> 's) list \<Rightarrow> slot_iterator" where
  "list_begin xs = (case xs of [] \<Rightarrow> AtEnd | (n, f) # _ \<Rightarrow> AtNode n)"

fun list_next :: "node \<Rightarrow> (node \<times> 's) list \<Rightarrow> slot_iterator option" where
  "list_next n [] = None"
| "list_next n ((k, f) # xs) = (if k = n then Some (list_begin xs) else list_next n xs)"

text \<open>
  \<^verbatim>\<open>signal_iterator\<close>, lines 92-148, holds \<^verbatim>\<open>iter_\<close> and references to the mutex and to
  the tuple \<^verbatim>\<open>stored_args\<close> of the \<^verbatim>\<open>iterate\<close> object, which in turn holds references
  to the arguments of \<^verbatim>\<open>emit_iterate\<close>. \<^verbatim>\<open>emit_iterate\<close>, lines 168-171, builds the
  \<^verbatim>\<open>iterate\<close> object, whose \<^verbatim>\<open>begin()\<close> and \<^verbatim>\<open>end()\<close> wrap \<^verbatim>\<open>slots_.begin()\<close> and
  \<^verbatim>\<open>slots_.end()\<close>.
\<close>

record signal_iterator =
  iter :: slot_iterator

definition iterate_begin :: "('a, 'r, 'e, 'w) signal \<Rightarrow> signal_iterator" where
  "iterate_begin sig = \<lparr>iter = list_begin (slots sig)\<rparr>"

definition iterate_end :: "('a, 'r, 'e, 'w) signal \<Rightarrow> signal_iterator" where
  "iterate_end sig = \<lparr>iter = AtEnd\<rparr>"

text \<open>
  The member \<^verbatim>\<open>stored_args\<close> of \<^verbatim>\<open>iterate\<close> is a \<^verbatim>\<open>std::tuple<CallArgs&&...>\<close>
  (line 163), initialised from \<^verbatim>\<open>std::forward<CallArgs>(args)...\<close> (lines 153-154, 170):
  a tuple of references, \<^verbatim>\<open>T&\<close> to the caller's object for an lvalue argument and
  \<^verbatim>\<open>T&&\<close> to the temporary for an rvalue argument. No argument is copied or moved
  into the \<^verbatim>\<open>iterate\<close> object, so what \<^verbatim>\<open>operator*\<close> reads later is the argument
  object itself, if it still exists. \<open>lifetime\<close> says whether it does at the moment
  of a dereference.

  In \<^verbatim>\<open>for (auto r : sig.emit_iterate(args...))\<close> the range initialiser is a
  full-expression of its own, \<^verbatim>\<open>auto&& __range = sig.emit_iterate(args...);\<close>. The
  \<^verbatim>\<open>iterate\<close> object is bound to \<^verbatim>\<open>__range\<close> and lives on; the temporary
  materialised for an rvalue argument is destroyed at the end of that full-expression,
  before \<^verbatim>\<open>begin()\<close> is called. (That is the rule of C++11 to C++20; the header is
  written for C++14 and C++17, see line 95. C++23 keeps such temporaries for the whole
  loop.) An lvalue argument names an object of the caller's, which exists for the whole
  statement.
\<close>

datatype lifetime = Alive | Ended

definition in_range_for :: "value_category \<Rightarrow> lifetime" where
  "in_range_for cat = (case cat of Lvalue \<Rightarrow> Alive | Rvalue \<Rightarrow> Ended)"

text \<open>
  \<^verbatim>\<open>operator*\<close>, lines 129-136: \<^verbatim>\<open>std::apply(*iter_, stored_args)\<close>. The tuple is
  an lvalue, so each of its elements is passed to the slot as an lvalue. Reading an
  element whose object has ended is undefined behaviour.
\<close>

definition deref ::
  "'a func_sig \<Rightarrow> ('a, 'r, 'e, 'w) signal \<Rightarrow> lifetime \<Rightarrow> signal_iterator
     \<Rightarrow> ('a, 'w) run_state \<Rightarrow> error + (('e + 'r) \<times> ('a, 'w) run_state)" where
  "deref sg sig lt it st =
     (case iter it of
        AtEnd \<Rightarrow> Inl InvalidIterator
      | AtNode n \<Rightarrow>
          (case map_of (slots sig) n of
             None \<Rightarrow> Inl InvalidIterator
           | Some f \<Rightarrow>
               (case lt of
                  Ended \<Rightarrow> Inl DanglingReference
                | Alive \<Rightarrow> Inr (call_slot sg Lvalue n f st))))"

text \<open>\<^verbatim>\<open>operator++\<close>, line 138: \<^verbatim>\<open>iter_++\<close>.\<close>

definition advance ::
  "('a, 'r, 'e, 'w) signal \<Rightarrow> signal_iterator \<Rightarrow> error + signal_iterator" where
  "advance sig it =
     (case iter it of
        AtEnd \<Rightarrow> Inl InvalidIterator
      | AtNode n \<Rightarrow>
          (case list_next n (slots sig) of
             None \<Rightarrow> Inl InvalidIterator
           | Some p \<Rightarrow> Inr (it\<lparr>iter := p\<rparr>)))"

text \<open>
  A consumer of the sequence that takes at most \<open>k\<close> elements: \<open>k\<close> rounds of comparing
  with \<^verbatim>\<open>end()\<close>, dereferencing and incrementing, left early by the end of the
  sequence or by an exception of a slot. It returns the exception if there was one, the
  results collected, the iterator where it stopped and the run state. \<open>lt\<close> is the
  lifetime of the argument object while the consumer runs.
\<close>

fun consume ::
  "nat \<Rightarrow> 'a func_sig \<Rightarrow> ('a, 'r, 'e, 'w) signal \<Rightarrow> lifetime \<Rightarrow> signal_iterator
     \<Rightarrow> 'r list \<Rightarrow> ('a, 'w) run_state
     \<Rightarrow> error + ('e option \<times> 'r list \<times> signal_iterator \<times> ('a, 'w) run_state)" where
  "consume 0 sg sig lt it rs st = Inr (None, rs, it, st)"
| "consume (Suc k) sg sig lt it rs st =
     (if it = iterate_end sig then Inr (None, rs, it, st)
      else
        (case deref sg sig lt it st of
           Inl u \<Rightarrow> Inl u
         | Inr (Inl e, st') \<Rightarrow> Inr (Some e, rs, it, st')
         | Inr (Inr r, st') \<Rightarrow>
             (case advance sig it of
                Inl u \<Rightarrow> Inl u
              | Inr it' \<Rightarrow> consume k sg sig lt it' (rs @ [r]) st')))"

text \<open>
  The range-for statement over \<^verbatim>\<open>sig.emit_iterate(args...)\<close>, left by \<^verbatim>\<open>break\<close> after
  \<open>k\<close> elements at the latest. \<open>cat\<close> is the value category of the argument, and
  \<open>st\<close> holds the value the argument has when \<^verbatim>\<open>emit_iterate\<close> is called.
\<close>

definition range_for ::
  "nat \<Rightarrow> 'a func_sig \<Rightarrow> value_category \<Rightarrow> ('a, 'r, 'e, 'w) signal \<Rightarrow> ('a, 'w) run_state
     \<Rightarrow> error + ('e option \<times> 'r list \<times> signal_iterator \<times> ('a, 'w) run_state)" where
  "range_for k sg cat sig st = consume k sg sig (in_range_for cat) (iterate_begin sig) [] st"

text \<open>
  What the specification compares the sequence with (section 8: "the same per-slot
  results as an equivalent manual loop, in the same order"), written from its words:
  call the given slots one by one, in order, with the argument object, and collect
  their results; an exception ends the loop.
\<close>

fun call_each ::
  "'a func_sig \<Rightarrow> (node \<times> ('a, 'r, 'e, 'w) slot_type) list \<Rightarrow> 'r list
     \<Rightarrow> ('a, 'w) run_state \<Rightarrow> 'e option \<times> 'r list \<times> ('a, 'w) run_state" where
  "call_each sg [] rs st = (None, rs, st)"
| "call_each sg ((n, f) # fs) rs st =
     (case call_slot sg Lvalue n f st of
        (Inl e, st') \<Rightarrow> (Some e, rs, st')
      | (Inr r, st') \<Rightarrow> call_each sg fs (rs @ [r]) st')"

subsection \<open>Locking\<close>

text \<open>
  The template parameters \<^verbatim>\<open>thread_safe\<close> and \<^verbatim>\<open>emit_thread_safe\<close> choose the mutex and
  the lock that emission takes (lines 22-23): \<^verbatim>\<open>std::shared_mutex\<close> or the
  \<^verbatim>\<open>empty_mutex\<close> of lines 12-18, whose four members do nothing, and
  \<^verbatim>\<open>std::unique_lock\<close> or \<^verbatim>\<open>std::shared_lock\<close>. The three aliases of lines 178-183
  fix them.
\<close>

datatype mutex_kind = SharedMutex | EmptyMutex

datatype lock_kind = UniqueLock | SharedLock

record policy =
  thread_safe :: bool
  emit_thread_safe :: bool

definition mutex_type :: "policy \<Rightarrow> mutex_kind" where
  "mutex_type p = (if thread_safe p then SharedMutex else EmptyMutex)"

definition emit_locker :: "policy \<Rightarrow> lock_kind" where
  "emit_locker p = (if emit_thread_safe p then UniqueLock else SharedLock)"

definition ktsignal :: policy where
  "ktsignal = \<lparr>thread_safe = False, emit_thread_safe = False\<rparr>"

definition ktsignal_threadsafe :: policy where
  "ktsignal_threadsafe = \<lparr>thread_safe = True, emit_thread_safe = False\<rparr>"

definition ktsignal_threadsafe_emit :: policy where
  "ktsignal_threadsafe_emit = \<lparr>thread_safe = True, emit_thread_safe = True\<rparr>"

text \<open>
  What a thread can be doing on a signal, and the lock it holds while it does: the
  body of \<^verbatim>\<open>connect\<close> or \<^verbatim>\<open>scoped_connect\<close> (\<^verbatim>\<open>unique_lock\<close>, lines 53 and 64), the
  erase lambda of a connection (\<^verbatim>\<open>unique_lock\<close>, lines 58 and 69), the loop of
  \<^verbatim>\<open>emit\<close> (\<^verbatim>\<open>emit_locker\<close>, line 86), \<^verbatim>\<open>operator*\<close> of the result iterator
  (\<^verbatim>\<open>emit_locker\<close>, line 130), and \<^verbatim>\<open>begin()\<close>/\<^verbatim>\<open>end()\<close> and \<^verbatim>\<open>operator++\<close> of result
  iteration, which read the list and take no lock (lines 138 and 156-161).
\<close>

datatype activity = InConnect | InErase | InEmit | InDeref | InBegin | InAdvance

definition locker :: "policy \<Rightarrow> activity \<Rightarrow> lock_kind option" where
  "locker p c =
     (case c of
        InConnect \<Rightarrow> Some UniqueLock
      | InErase \<Rightarrow> Some UniqueLock
      | InEmit \<Rightarrow> Some (emit_locker p)
      | InDeref \<Rightarrow> Some (emit_locker p)
      | InBegin \<Rightarrow> None
      | InAdvance \<Rightarrow> None)"

definition mutates :: "activity \<Rightarrow> bool" where
  "mutates c = (case c of InConnect \<Rightarrow> True | InErase \<Rightarrow> True | _ \<Rightarrow> False)"

definition emits :: "activity \<Rightarrow> bool" where
  "emits c = (case c of InEmit \<Rightarrow> True | InDeref \<Rightarrow> True | _ \<Rightarrow> False)"

text \<open>
  The state of a \<^verbatim>\<open>std::shared_mutex\<close>: whether a thread owns it exclusively, and how
  many own it shared. \<^verbatim>\<open>lock()\<close> waits until no thread owns it in either way,
  \<^verbatim>\<open>lock_shared()\<close> until no thread owns it exclusively. The \<^verbatim>\<open>empty_mutex\<close> never
  makes a thread wait and keeps no state.
\<close>

record mutex_state =
  exclusive :: bool
  shared :: nat

definition can_lock :: "mutex_kind \<Rightarrow> lock_kind \<Rightarrow> mutex_state \<Rightarrow> bool" where
  "can_lock mk lk m =
     (case mk of
        EmptyMutex \<Rightarrow> True
      | SharedMutex \<Rightarrow>
          (case lk of
             UniqueLock \<Rightarrow> \<not> exclusive m \<and> shared m = 0
           | SharedLock \<Rightarrow> \<not> exclusive m))"

definition do_lock :: "mutex_kind \<Rightarrow> lock_kind \<Rightarrow> mutex_state \<Rightarrow> mutex_state" where
  "do_lock mk lk m =
     (case mk of
        EmptyMutex \<Rightarrow> m
      | SharedMutex \<Rightarrow>
          (case lk of
             UniqueLock \<Rightarrow> m\<lparr>exclusive := True\<rparr>
           | SharedLock \<Rightarrow> m\<lparr>shared := Suc (shared m)\<rparr>))"

definition do_unlock :: "mutex_kind \<Rightarrow> lock_kind \<Rightarrow> mutex_state \<Rightarrow> mutex_state" where
  "do_unlock mk lk m =
     (case mk of
        EmptyMutex \<Rightarrow> m
      | SharedMutex \<Rightarrow>
          (case lk of
             UniqueLock \<Rightarrow> m\<lparr>exclusive := False\<rparr>
           | SharedLock \<Rightarrow> m\<lparr>shared := shared m - 1\<rparr>))"

definition may_enter :: "policy \<Rightarrow> activity \<Rightarrow> mutex_state \<Rightarrow> bool" where
  "may_enter p c m =
     (case locker p c of None \<Rightarrow> True | Some lk \<Rightarrow> can_lock (mutex_type p) lk m)"

definition on_enter :: "policy \<Rightarrow> activity \<Rightarrow> mutex_state \<Rightarrow> mutex_state" where
  "on_enter p c m =
     (case locker p c of None \<Rightarrow> m | Some lk \<Rightarrow> do_lock (mutex_type p) lk m)"

definition on_leave :: "policy \<Rightarrow> activity \<Rightarrow> mutex_state \<Rightarrow> mutex_state" where
  "on_leave p c m =
     (case locker p c of None \<Rightarrow> m | Some lk \<Rightarrow> do_unlock (mutex_type p) lk m)"

text \<open>
  Threads run the activities interleaved: a thread outside the signal enters an activity
  when its lock, if it takes one, can be acquired, and leaves it again, releasing the
  lock. Several steps of other threads can lie between the two.
\<close>

datatype thread = Outside | Inside activity

record program_state =
  slots_mutex :: mutex_state
  threads :: "thread list"

definition initial :: "nat \<Rightarrow> program_state" where
  "initial n = \<lparr>slots_mutex = \<lparr>exclusive = False, shared = 0\<rparr>, threads = replicate n Outside\<rparr>"

inductive thread_step :: "policy \<Rightarrow> program_state \<Rightarrow> program_state \<Rightarrow> bool" where
  enter:
    "t < length (threads s) \<Longrightarrow> threads s ! t = Outside
     \<Longrightarrow> may_enter p c (slots_mutex s)
     \<Longrightarrow> thread_step p s
           \<lparr>slots_mutex = on_enter p c (slots_mutex s),
              threads = (threads s)[t := Inside c]\<rparr>"
| leave:
    "t < length (threads s) \<Longrightarrow> threads s ! t = Inside c
     \<Longrightarrow> thread_step p s
           \<lparr>slots_mutex = on_leave p c (slots_mutex s),
              threads = (threads s)[t := Outside]\<rparr>"

inductive reachable :: "policy \<Rightarrow> nat \<Rightarrow> program_state \<Rightarrow> bool" where
  start: "reachable p n (initial n)"
| after: "reachable p n s \<Longrightarrow> thread_step p s s' \<Longrightarrow> reachable p n s'"

code_pred thread_step .

code_pred reachable .

text \<open>
  The mutex counts what the threads hold: as many shared owners as there are threads
  inside an activity under a shared lock, and an exclusive owner exactly when one
  thread is inside an activity under a unique lock.
\<close>

definition holds :: "policy \<Rightarrow> lock_kind \<Rightarrow> thread \<Rightarrow> bool" where
  "holds p lk th = (case th of Outside \<Rightarrow> False | Inside c \<Rightarrow> locker p c = Some lk)"

definition lock_inv :: "policy \<Rightarrow> program_state \<Rightarrow> bool" where
  "lock_inv p s =
     (shared (slots_mutex s) = length (filter (holds p SharedLock) (threads s))
      \<and> length (filter (holds p UniqueLock) (threads s)) = (if exclusive (slots_mutex s) then 1 else 0)
      \<and> (exclusive (slots_mutex s) \<longrightarrow> shared (slots_mutex s) = 0))"

subsection \<open>Slots used in the examples\<close>

text \<open>
  The examples use \<^verbatim>\<open>int\<close> arguments and results, exceptions that carry a string, and a
  world that is a log of strings and integers. \<open>logging_slot\<close> appends its name and the
  argument it sees to the log and returns \<open>r\<close>; \<open>throwing_slot\<close> throws;
  \<open>incrementing_slot\<close> adds one to its parameter.
\<close>

type_synonym example_slot = "(int, int, string, (string \<times> int) list) slot_type"

definition logging_slot :: "string \<Rightarrow> int \<Rightarrow> example_slot" where
  "logging_slot name r = (\<lambda>a w. (Inr r, a, w @ [(name, a)]))"

definition throwing_slot :: "string \<Rightarrow> example_slot" where
  "throwing_slot e = (\<lambda>a w. (Inl e, a, w))"

definition incrementing_slot :: example_slot where
  "incrementing_slot = (\<lambda>a w. (Inr 0, a + 1, w))"

text \<open>\<^verbatim>\<open>void(int)\<close> and \<^verbatim>\<open>void(int&)\<close>: moving from an \<^verbatim>\<open>int\<close> leaves it as it is.\<close>

definition int_by_value :: "int func_sig" where
  "int_by_value = \<lparr>param = ByValue, moved_from = (\<lambda>a. a)\<rparr>"

definition int_by_reference :: "int func_sig" where
  "int_by_reference = \<lparr>param = ByReference, moved_from = (\<lambda>a. a)\<rparr>"

type_synonym example_signal = "(int, int, string, (string \<times> int) list) signal"

text \<open>A signal with one slot, and the connection that \<^verbatim>\<open>connect\<close> returned for it.\<close>

definition one_slot :: "ktsignal_connection \<times> example_signal" where
  "one_slot = connect empty_signal (logging_slot ''A'' 1)"

text \<open>Three slots A, B and C connected in that order to a new signal.\<close>

definition abc_signal ::
  "ktsignal_connection \<times> ktsignal_connection \<times> ktsignal_connection \<times> example_signal" where
  "abc_signal =
     (case connect empty_signal (logging_slot ''A'' 1) of
        (ca, s1) \<Rightarrow>
          (case connect s1 (logging_slot ''B'' 2) of
             (cb, s2) \<Rightarrow>
               (case connect s2 (logging_slot ''C'' 3) of
                  (cc, s3) \<Rightarrow> (ca, cb, cc, s3))))"


definition inc_throw_log :: example_signal where
  "inc_throw_log =
     snd (connect (snd (connect (snd (connect empty_signal incrementing_slot))
                          (throwing_slot ''boom'')))
            (logging_slot ''C'' 3))"

text \<open>
  \<^verbatim>\<open>void(std::string)\<close>: the move constructor of \<^verbatim>\<open>std::string\<close> leaves its source empty
  (libstdc++, libc++ and the Microsoft library). \<open>two_string_slots\<close> is a signal of that
  type with two slots that log the string they receive.
\<close>

definition string_by_value :: "string func_sig" where
  "string_by_value = \<lparr>param = ByValue, moved_from = (\<lambda>a. [])\<rparr>"

definition string_logger :: "(string, unit, string, string list) slot_type" where
  "string_logger = (\<lambda>a w. (Inr (), a, w @ [a]))"

definition two_string_slots :: "(string, unit, string, string list) signal" where
  "two_string_slots = snd (connect (snd (connect empty_signal string_logger)) string_logger)"

section \<open>Basic facts\<close>

lemma list_erase_Some:
  "n \<in> fst ` set xs \<Longrightarrow> \<exists>ys. list_erase n xs = Some ys"
  by (induction xs) force+

lemma list_erase_None: "n \<notin> fst ` set xs \<Longrightarrow> list_erase n xs = None"
  by (induction xs) auto

lemma list_erase_filter:
  "distinct (map fst xs) \<Longrightarrow> list_erase n xs = Some ys \<Longrightarrow> ys = filter (\<lambda>p. fst p \<noteq> n) xs"
proof (induction xs arbitrary: ys)
  case Nil
  then show ?case by simp
next
  case (Cons p xs)
  obtain k f where p: "p = (k, f)" by (cases p)
  show ?case
  proof (cases "k = n")
    case True
    with Cons.prems p have "ys = xs" and "n \<notin> fst ` set xs" by auto
    then have "filter (\<lambda>p. fst p \<noteq> n) xs = xs"
      by (auto intro!: filter_True)
    with True p \<open>ys = xs\<close> show ?thesis by simp
  next
    case False
    with Cons.prems p obtain zs where zs: "list_erase n xs = Some zs" "ys = (k, f) # zs"
      by auto
    with Cons.IH Cons.prems p have "zs = filter (\<lambda>p. fst p \<noteq> n) xs" by simp
    with False p zs show ?thesis by simp
  qed
qed

lemma list_erase_length:
  "list_erase n xs = Some ys \<Longrightarrow> length xs = Suc (length ys)"
  by (induction xs arbitrary: ys) (auto split: if_splits)

lemma list_erase_subset: "list_erase n xs = Some ys \<Longrightarrow> set ys \<subseteq> set xs"
proof (induction xs arbitrary: ys)
  case Nil
  then show ?case by simp
next
  case (Cons p xs)
  obtain k f where p: "p = (k, f)" by (cases p)
  show ?case
  proof (cases "k = n")
    case True
    with Cons.prems p show ?thesis by auto
  next
    case False
    with Cons.prems p obtain zs where zs: "list_erase n xs = Some zs" and y: "ys = (k, f) # zs"
      by auto
    from Cons.IH [OF zs] y p show ?thesis by auto
  qed
qed

lemma wf_empty_signal: "wf_signal empty_signal"
  by (simp add: wf_signal_def empty_signal_def nodes_def)

lemma wf_connect: "wf_signal sig \<Longrightarrow> wf_signal (snd (connect sig f))"
  by (auto simp: wf_signal_def connect_def nodes_def Let_def list_all_iff)

lemma wf_scoped_connect: "wf_signal sig \<Longrightarrow> wf_signal (snd (scoped_connect sig f))"
  by (auto simp: wf_signal_def scoped_connect_def nodes_def Let_def list_all_iff)

lemma call_erase_live:
  assumes "wf_signal sig" and "n \<in> set (nodes sig)"
  shows "call_erase_func (EraseLambda n) sig =
           Inr (sig\<lparr>slots := filter (\<lambda>p. fst p \<noteq> n) (slots sig)\<rparr>)"
proof -
  from assms(2) have "n \<in> fst ` set (slots sig)" by (simp add: nodes_def)
  then obtain ys where ys: "list_erase n (slots sig) = Some ys"
    using list_erase_Some by blast
  from assms(1) have "distinct (map fst (slots sig))" by (simp add: wf_signal_def nodes_def)
  then have "ys = filter (\<lambda>p. fst p \<noteq> n) (slots sig)" using ys by (rule list_erase_filter)
  with ys show ?thesis by (simp add: call_erase_func_def)
qed

lemma disconnect_live:
  assumes "wf_signal sig" and "erase_func c = EraseLambda n" and "n \<in> set (nodes sig)"
  shows "disconnect c sig =
           Inr (c\<lparr>erase_func := NoopLambda\<rparr>,
                sig\<lparr>slots := filter (\<lambda>p. fst p \<noteq> n) (slots sig)\<rparr>)"
  using call_erase_live [OF assms(1) assms(3)] assms(2) by (simp add: disconnect_def)

lemma disconnect_noop:
  "erase_func c = NoopLambda \<Longrightarrow> disconnect c sig = Inr (c, sig)"
  by (simp add: disconnect_def call_erase_func_def)

lemma disconnect_times_noop:
  "erase_func c = NoopLambda \<Longrightarrow> disconnect_times n c sig = Inr (c, sig)"
  by (induction n) (simp_all add: disconnect_noop)

lemma wf_filter: "wf_signal sig \<Longrightarrow> wf_signal (sig\<lparr>slots := filter P (slots sig)\<rparr>)"
  by (auto simp: wf_signal_def nodes_def list_all_iff distinct_map_filter)

lemma wf_disconnect:
  assumes "wf_signal sig" and "disconnect c sig = Inr (c', sig')"
  shows "wf_signal sig'"
proof (cases "erase_func c")
  case NoTarget
  with assms(2) show ?thesis by (simp add: disconnect_def call_erase_func_def)
next
  case NoopLambda
  with assms show ?thesis by (simp add: disconnect_noop)
next
  case (EraseLambda n)
  show ?thesis
  proof (cases "n \<in> set (nodes sig)")
    case True
    from disconnect_live [OF assms(1) EraseLambda True] assms(2)
    have "sig' = sig\<lparr>slots := filter (\<lambda>p. fst p \<noteq> n) (slots sig)\<rparr>" by simp
    with assms(1) show ?thesis by (simp add: wf_filter)
  next
    case False
    then have "list_erase n (slots sig) = None"
      by (intro list_erase_None) (simp add: nodes_def)
    with EraseLambda assms(2) show ?thesis
      by (simp add: disconnect_def call_erase_func_def)
  qed
qed

lemma attached_connect:
  "attached (fst (connect sig f)) (snd (connect sig f))"
  by (simp add: attached_def connect_def nodes_def Let_def)

lemma attached_after_connect:
  "attached c sig \<Longrightarrow> attached c (snd (connect sig g))"
  by (cases "erase_func c") (simp_all add: attached_def connect_def nodes_def Let_def)

lemma attached_after_other_disconnect:
  assumes "wf_signal sig" and "attached c sig" and "erase_func d \<noteq> erase_func c"
    and "disconnect d sig = Inr (d', sig')"
  shows "attached c sig'"
proof (cases "erase_func d")
  case NoTarget
  with assms(4) show ?thesis by (simp add: disconnect_def call_erase_func_def)
next
  case NoopLambda
  with assms(2,4) show ?thesis by (simp add: disconnect_noop)
next
  case (EraseLambda n)
  show ?thesis
  proof (cases "n \<in> set (nodes sig)")
    case True
    from disconnect_live [OF assms(1) EraseLambda True] assms(4)
    have "sig' = sig\<lparr>slots := filter (\<lambda>p. fst p \<noteq> n) (slots sig)\<rparr>" by simp
    with assms(2,3) EraseLambda show ?thesis
      by (cases "erase_func c") (auto simp: attached_def nodes_def)
  next
    case False
    then have "list_erase n (slots sig) = None"
      by (intro list_erase_None) (simp add: nodes_def)
    with EraseLambda assms(4) show ?thesis
      by (simp add: disconnect_def call_erase_func_def)
  qed
qed

text \<open>
  A node that was handed out and is no longer in the registry never comes back:
  \<^verbatim>\<open>connect\<close> hands out new nodes only and \<^verbatim>\<open>disconnect\<close> only removes.
\<close>

lemma erased_node_stays_out_connect:
  assumes "n < next_node sig" and "n \<notin> set (nodes sig)"
  shows "n < next_node (snd (connect sig f)) \<and> n \<notin> set (nodes (snd (connect sig f)))"
  using assms by (simp add: connect_def nodes_def Let_def)

lemma erased_node_stays_out_disconnect:
  assumes "n < next_node sig" and "n \<notin> set (nodes sig)" and "disconnect d sig = Inr (d', sig')"
  shows "n < next_node sig' \<and> n \<notin> set (nodes sig')"
proof (cases "erase_func d")
  case NoTarget
  with assms(3) show ?thesis by (simp add: disconnect_def call_erase_func_def)
next
  case NoopLambda
  with assms show ?thesis by (simp add: disconnect_noop)
next
  case (EraseLambda k)
  with assms(3) obtain ys where ys: "list_erase k (slots sig) = Some ys" and s: "sig' = sig\<lparr>slots := ys\<rparr>"
    by (auto simp: disconnect_def call_erase_func_def split: option.splits)
  from list_erase_subset [OF ys] assms(1,2) s show ?thesis by (auto simp: nodes_def)
qed

section \<open>Disconnecting\<close>

text \<open>
  Claim C3. Calling \<^verbatim>\<open>disconnect()\<close> any number of times, at least once, on a connection of
  a signal gives the same signal and the same connection as calling it once. The first
  call runs the stored erase action; it leaves the no-op lambda in the connection, and
  from then on every call returns normally and changes nothing, whatever state the
  signal is in. The connection is one that \<^verbatim>\<open>connect\<close> returned for this signal: it holds
  the erase lambda for a node still in the registry, or the no-op lambda of an earlier
  disconnect.
\<close>

theorem disconnect_idempotent:
  assumes "wf_signal sig" and "attached c sig"
  shows "\<exists>c' sig'. disconnect c sig = Inr (c', sig')
           \<and> call_erase_func (erase_func c) sig = Inr sig'
           \<and> erase_func c' = NoopLambda
           \<and> (\<forall>n. disconnect_times (Suc n) c sig = Inr (c', sig'))
           \<and> (\<forall>s :: ('a, 'r, 'e, 'w) signal. disconnect c' s = Inr (c', s))"
proof (cases "erase_func c")
  case NoTarget
  with assms(2) show ?thesis by (simp add: attached_def)
next
  case NoopLambda
  then show ?thesis
    by (simp add: disconnect_noop disconnect_times_noop call_erase_func_def)
next
  case (EraseLambda n)
  with assms(2) have n: "n \<in> set (nodes sig)" by (simp add: attached_def)
  let ?c = "c\<lparr>erase_func := NoopLambda\<rparr>"
  let ?s = "sig\<lparr>slots := filter (\<lambda>p. fst p \<noteq> n) (slots sig)\<rparr>"
  have d: "disconnect c sig = Inr (?c, ?s)"
    by (rule disconnect_live [OF assms(1) EraseLambda n])
  have e: "call_erase_func (erase_func c) sig = Inr ?s"
    using call_erase_live [OF assms(1) n] EraseLambda by simp
  have t: "disconnect_times (Suc k) c sig = Inr (?c, ?s)" for k
    using d by (simp add: disconnect_times_noop)
  have l: "disconnect ?c s = Inr (?c, s)" for s :: "('a, 'r, 'e, 'w) signal"
    by (simp add: disconnect_noop)
  from d e t l show ?thesis by simp
qed

lemma one_slot_eq:
  "one_slot = (\<lparr>erase_func = EraseLambda 0\<rparr>, \<lparr>slots = [(0, logging_slot ''A'' 1)], next_node = 1\<rparr>)"
  by (simp add: one_slot_def connect_def empty_signal_def)

lemma abc_signal_eq:
  "abc_signal =
     (\<lparr>erase_func = EraseLambda 0\<rparr>, \<lparr>erase_func = EraseLambda 1\<rparr>,
      \<lparr>erase_func = EraseLambda 2\<rparr>,
      \<lparr>slots = [(0, logging_slot ''A'' 1), (1, logging_slot ''B'' 2), (2, logging_slot ''C'' 3)],
         next_node = 3\<rparr>)"
  by (simp add: abc_signal_def connect_def empty_signal_def)

theorem disconnect_idempotent_witness:
  "wf_signal (snd one_slot) \<and> attached (fst one_slot) (snd one_slot)
   \<and> disconnect_times (Suc (Suc (Suc 0))) (fst one_slot) (snd one_slot)
       = disconnect (fst one_slot) (snd one_slot)
   \<and> disconnect (fst one_slot) (snd one_slot)
       = Inr (\<lparr>erase_func = NoopLambda\<rparr>, \<lparr>slots = [], next_node = 1\<rparr>)"
proof -
  have w: "wf_signal (snd one_slot)"
    by (simp add: one_slot_eq wf_signal_def nodes_def)
  have a: "attached (fst one_slot) (snd one_slot)"
    by (simp add: one_slot_eq attached_def nodes_def)
  from disconnect_idempotent [OF w a]
  obtain c' sig' where "disconnect (fst one_slot) (snd one_slot) = Inr (c', sig')"
    and "\<forall>n. disconnect_times (Suc n) (fst one_slot) (snd one_slot) = Inr (c', sig')"
    by blast
  then have "disconnect_times (Suc (Suc (Suc 0))) (fst one_slot) (snd one_slot)
       = disconnect (fst one_slot) (snd one_slot)" by simp
  moreover have "disconnect (fst one_slot) (snd one_slot)
       = Inr (\<lparr>erase_func = NoopLambda\<rparr>, \<lparr>slots = [], next_node = 1\<rparr>)"
    by (simp add: one_slot_eq disconnect_def call_erase_func_def)
  ultimately show ?thesis using w a by simp
qed

text \<open>
  Claim C8. A connection that holds the erase lambda for a node of the registry removes,
  at its first \<^verbatim>\<open>disconnect()\<close>, exactly the entry at that node: the registry loses one
  entry and keeps all the others, in their order. The connection then holds the no-op
  lambda, which captured no iterator, so whatever is called on it later (any number of
  further disconnects, in any state of the signal) returns normally and removes
  nothing: over its lifetime the connection removes one entry at most.
\<close>

theorem disconnect_removes_one_entry:
  assumes "wf_signal sig" and "erase_func c = EraseLambda n" and "n \<in> set (nodes sig)"
  shows "\<exists>c' sig'. disconnect c sig = Inr (c', sig')
           \<and> slots sig' = filter (\<lambda>p. fst p \<noteq> n) (slots sig)
           \<and> length (slots sig) = Suc (length (slots sig'))
           \<and> next_node sig' = next_node sig
           \<and> erase_func c' = NoopLambda
           \<and> (\<forall>k (s :: ('a, 'r, 'e, 'w) signal). disconnect_times k c' s = Inr (c', s))"
proof -
  let ?c = "c\<lparr>erase_func := NoopLambda\<rparr>"
  let ?s = "sig\<lparr>slots := filter (\<lambda>p. fst p \<noteq> n) (slots sig)\<rparr>"
  have d: "disconnect c sig = Inr (?c, ?s)"
    by (rule disconnect_live [OF assms])
  from assms(3) have "n \<in> fst ` set (slots sig)" by (simp add: nodes_def)
  then obtain ys where ys: "list_erase n (slots sig) = Some ys"
    using list_erase_Some by blast
  from assms(1) have "distinct (map fst (slots sig))" by (simp add: wf_signal_def nodes_def)
  then have "ys = slots ?s" using ys by (simp add: list_erase_filter)
  with ys have len: "length (slots sig) = Suc (length (slots ?s))"
    using list_erase_length by metis
  have "disconnect_times k ?c s = Inr (?c, s)" for k and s :: "('a, 'r, 'e, 'w) signal"
    by (simp add: disconnect_times_noop)
  with d len show ?thesis by simp
qed


theorem disconnect_removes_one_entry_witness:
  "wf_signal (snd (snd (snd abc_signal)))
   \<and> erase_func (fst (snd abc_signal)) = EraseLambda 1
   \<and> 1 \<in> set (nodes (snd (snd (snd abc_signal))))
   \<and> (\<exists>c' sig'. disconnect (fst (snd abc_signal)) (snd (snd (snd abc_signal))) = Inr (c', sig')
         \<and> slots sig' = [(0, logging_slot ''A'' 1), (2, logging_slot ''C'' 3)]
         \<and> disconnect_times (Suc (Suc 0)) c' sig' = Inr (c', sig'))"
proof -
  let ?s = "snd (snd (snd abc_signal))" and ?c = "fst (snd abc_signal)"
  have w: "wf_signal ?s" by (simp add: abc_signal_eq wf_signal_def nodes_def)
  have e: "erase_func ?c = EraseLambda 1" by (simp add: abc_signal_eq)
  have n: "1 \<in> set (nodes ?s)" by (simp add: abc_signal_eq nodes_def)
  from disconnect_removes_one_entry [OF w e n]
  obtain c' sig' where d: "disconnect ?c ?s = Inr (c', sig')"
    and f: "slots sig' = filter (\<lambda>p. fst p \<noteq> 1) (slots ?s)"
    and k: "\<forall>k (s :: example_signal). disconnect_times k c' s = Inr (c', s)"
    by blast
  from f have "slots sig' = [(0, logging_slot ''A'' 1), (2, logging_slot ''C'' 3)]"
    by (simp add: abc_signal_eq)
  moreover from k have "disconnect_times (Suc (Suc 0)) c' sig' = Inr (c', sig')" by blast
  ultimately show ?thesis using w e n d by blast
qed

section \<open>Programs of connects and disconnects\<close>

lemma client_inv_new: "client_inv new_client"
  by (simp add: client_inv_def new_client_def wf_signal_def nodes_def empty_signal_def)

lemma client_inv_nodes_less:
  "client_inv cl \<Longrightarrow> p \<in> set (slots (sig_of cl)) \<Longrightarrow> fst p < length (handles cl)"
  by (auto simp: client_inv_def wf_signal_def nodes_def list_all_iff)

lemma step_connect:
  assumes "client_inv cl"
  shows "\<exists>cl'. step cl (Connect f) = Inr cl' \<and> client_inv cl'
           \<and> slots (sig_of cl') = slots (sig_of cl) @ [(length (handles cl), f)]
           \<and> length (handles cl') = Suc (length (handles cl))"
proof -
  let ?n = "length (handles cl)"
  let ?cl = "\<lparr>sig_of = (sig_of cl)\<lparr>slots := slots (sig_of cl) @ [(?n, f)], next_node := Suc ?n\<rparr>,
              handles = handles cl @ [\<lparr>erase_func = EraseLambda ?n\<rparr>]\<rparr>"
  from assms have nn: "next_node (sig_of cl) = ?n" by (simp add: client_inv_def)
  then have s: "step cl (Connect f) = Inr ?cl" by (simp add: connect_def Let_def)
  from assms have "wf_signal (snd (connect (sig_of cl) f))" by (simp add: client_inv_def wf_connect)
  with nn have wf: "wf_signal (sig_of ?cl)" by (simp add: connect_def Let_def)
  have fresh: "?n \<notin> set (nodes (sig_of cl))"
    using assms by (auto simp: client_inv_def wf_signal_def list_all_iff)
  have "client_inv ?cl"
    unfolding client_inv_def
  proof (intro conjI allI impI)
    show "wf_signal (sig_of ?cl)" by (rule wf)
    show "next_node (sig_of ?cl) = length (handles ?cl)" by simp
    fix k assume "k < length (handles ?cl)"
    then consider "k < ?n" | "k = ?n" by fastforce
    then show "if k \<in> set (nodes (sig_of ?cl)) then erase_func (handles ?cl ! k) = EraseLambda k
             else erase_func (handles ?cl ! k) = NoopLambda"
    proof cases
      case 1
      with assms have "if k \<in> set (nodes (sig_of cl)) then erase_func (handles cl ! k) = EraseLambda k
             else erase_func (handles cl ! k) = NoopLambda" by (simp add: client_inv_def)
      with 1 show ?thesis by (simp add: nodes_def nth_append)
    next
      case 2
      then show ?thesis by (simp add: nodes_def nth_append)
    qed
  qed
  with s show ?thesis by simp
qed

lemma step_disconnect:
  assumes "client_inv cl"
  shows "\<exists>cl'. step cl (Disconnect j) = Inr cl' \<and> client_inv cl'
           \<and> slots (sig_of cl') = filter (\<lambda>p. fst p \<noteq> j) (slots (sig_of cl))
           \<and> length (handles cl') = length (handles cl)"
proof (cases "j < length (handles cl)")
  case False
  then have "filter (\<lambda>p. fst p \<noteq> j) (slots (sig_of cl)) = slots (sig_of cl)"
    using client_inv_nodes_less [OF assms] by (intro filter_True) fastforce
  with False assms show ?thesis by simp
next
  case True
  show ?thesis
  proof (cases "j \<in> set (nodes (sig_of cl))")
    case False
    with True assms have e: "erase_func (handles cl ! j) = NoopLambda"
      by (simp add: client_inv_def)
    have f: "filter (\<lambda>p. fst p \<noteq> j) (slots (sig_of cl)) = slots (sig_of cl)"
      using False by (intro filter_True) (auto simp: nodes_def)
    have "client_inv \<lparr>sig_of = sig_of cl, handles = handles cl\<rparr>"
      using assms by (simp add: client_inv_def)
    with True e f show ?thesis by (simp add: disconnect_noop)
  next
    case in_reg: True
    with True assms have e: "erase_func (handles cl ! j) = EraseLambda j"
      by (simp add: client_inv_def)
    from assms have wf: "wf_signal (sig_of cl)" by (simp add: client_inv_def)
    let ?sig = "(sig_of cl)\<lparr>slots := filter (\<lambda>p. fst p \<noteq> j) (slots (sig_of cl))\<rparr>"
    let ?cl = "\<lparr>sig_of = ?sig, handles = (handles cl)[j := (handles cl ! j)\<lparr>erase_func := NoopLambda\<rparr>]\<rparr>"
    have s: "step cl (Disconnect j) = Inr ?cl"
      using True disconnect_live [OF wf e in_reg] by simp
    have "client_inv ?cl"
      unfolding client_inv_def
    proof (intro conjI allI impI)
      show "wf_signal (sig_of ?cl)" using wf by (simp add: wf_filter)
      show "next_node (sig_of ?cl) = length (handles ?cl)" using assms by (simp add: client_inv_def)
      fix k assume k: "k < length (handles ?cl)"
      with assms have old: "if k \<in> set (nodes (sig_of cl)) then erase_func (handles cl ! k) = EraseLambda k
             else erase_func (handles cl ! k) = NoopLambda" by (simp add: client_inv_def)
      show "if k \<in> set (nodes (sig_of ?cl)) then erase_func (handles ?cl ! k) = EraseLambda k
             else erase_func (handles ?cl ! k) = NoopLambda"
      proof (cases "k = j")
        case True
        with k show ?thesis by (auto simp: nodes_def)
      next
        case False
        then have "k \<in> set (nodes (sig_of ?cl)) \<longleftrightarrow> k \<in> set (nodes (sig_of cl))"
          by (auto simp: nodes_def)
        with False old show ?thesis by simp
      qed
    qed
    with s show ?thesis by simp
  qed
qed

lemma run_registry:
  assumes "client_inv cl"
  shows "\<exists>cl'. run cl ops = Inr cl'
           \<and> slots (sig_of cl') =
               filter (\<lambda>p. \<not> list_ex (is_disconnect_of (fst p)) ops) (slots (sig_of cl))
                 @ not_yet_disconnected (length (handles cl)) ops"
  using assms
proof (induction ops arbitrary: cl)
  case Nil
  then show ?case by simp
next
  case (Cons x ops)
  show ?case
  proof (cases x)
    case (Connect f)
    from step_connect [OF Cons.prems, of f] obtain cl1 where
      s: "step cl (Connect f) = Inr cl1" and i: "client_inv cl1"
      and r: "slots (sig_of cl1) = slots (sig_of cl) @ [(length (handles cl), f)]"
      and l: "length (handles cl1) = Suc (length (handles cl))" by blast
    from Cons.IH [OF i] obtain cl' where
      "run cl1 ops = Inr cl'" and
      "slots (sig_of cl') =
         filter (\<lambda>p. \<not> list_ex (is_disconnect_of (fst p)) ops) (slots (sig_of cl1))
           @ not_yet_disconnected (length (handles cl1)) ops" by blast
    with s r l Connect show ?thesis by simp
  next
    case (Disconnect j)
    from step_disconnect [OF Cons.prems, of j] obtain cl1 where
      s: "step cl (Disconnect j) = Inr cl1" and i: "client_inv cl1"
      and r: "slots (sig_of cl1) = filter (\<lambda>p. fst p \<noteq> j) (slots (sig_of cl))"
      and l: "length (handles cl1) = length (handles cl)" by blast
    from Cons.IH [OF i] obtain cl' where
      "run cl1 ops = Inr cl'" and
      "slots (sig_of cl') =
         filter (\<lambda>p. \<not> list_ex (is_disconnect_of (fst p)) ops) (slots (sig_of cl1))
           @ not_yet_disconnected (length (handles cl1)) ops" by blast
    moreover have "filter (\<lambda>p. \<not> list_ex (is_disconnect_of (fst p)) (Disconnect j # ops)) xs
        = filter (\<lambda>p. \<not> list_ex (is_disconnect_of (fst p)) ops) (filter (\<lambda>p. fst p \<noteq> j) xs)"
      for xs :: "(node \<times> ('a, 'b, 'c, 'd) slot_type) list"
      by (induction xs) auto
    ultimately show ?thesis using s r l Disconnect by simp
  qed
qed

text \<open>
  Claim C2. Whatever sequence of connects and disconnects a client runs on a new
  signal, every call returns normally, and the registry then holds exactly the slots
  whose handle was not disconnected after they were connected, in the order in which
  they were connected.
\<close>

theorem registry_after_connects_and_disconnects:
  "\<exists>cl. run new_client ops = Inr cl \<and> slots (sig_of cl) = not_yet_disconnected 0 ops"
  using run_registry [OF client_inv_new, of ops] by (simp add: new_client_def empty_signal_def)


section \<open>Emission\<close>

lemma call_slot_calls:
  "call_slot sg cat n f st = (out, st') \<Longrightarrow> calls st' = calls st @ [(n, args st)]"
  by (auto simp: call_slot_def split: prod.splits)


lemma keeps_argument_copy: "param sg = ByValue \<Longrightarrow> keeps_argument sg Lvalue f"
  by (simp add: keeps_argument_def invoke_def split: prod.splits)

lemma emit_loop_append:
  "emit_loop sg cat (xs @ ys) st =
     (case emit_loop sg cat xs st of
        (None, st') \<Rightarrow> emit_loop sg cat ys st'
      | (Some e, st') \<Rightarrow> (Some e, st'))"
  by (induction xs arbitrary: st) (auto split: prod.splits sum.splits option.splits)

lemma emit_loop_normal_calls:
  "emit_loop sg cat fs st = (None, st') \<Longrightarrow> map fst (calls st') = map fst (calls st) @ map fst fs"
proof (induction fs arbitrary: st)
  case Nil
  then show ?case by simp
next
  case (Cons p fs)
  obtain n f where p: "p = (n, f)" by (cases p)
  obtain out st1 where c: "call_slot sg cat n f st = (out, st1)" by (cases "call_slot sg cat n f st")
  with Cons.prems p obtain r where "out = Inr r" and "emit_loop sg cat fs st1 = (None, st')"
    by (cases out) auto
  with Cons.IH have "map fst (calls st') = map fst (calls st1) @ map fst fs" by simp
  with call_slot_calls [OF c] p show ?case by simp
qed

lemma emit_loop_calls_prefix:
  "emit_loop sg cat fs st = (ex, st') \<Longrightarrow>
     \<exists>j \<le> length fs. map fst (calls st') = map fst (calls st) @ take j (map fst fs)"
proof (induction fs arbitrary: st)
  case Nil
  then show ?case by simp
next
  case (Cons p fs)
  obtain n f where p: "p = (n, f)" by (cases p)
  obtain out st1 where c: "call_slot sg cat n f st = (out, st1)" by (cases "call_slot sg cat n f st")
  show ?case
  proof (cases out)
    case (Inl e)
    with Cons.prems p c have "st' = st1" by simp
    with call_slot_calls [OF c] have "map fst (calls st') = map fst (calls st) @ take 1 (map fst (p # fs))"
      using p by simp
    moreover have "1 \<le> length (p # fs)" by simp
    ultimately show ?thesis by blast
  next
    case (Inr r)
    with Cons.prems p c have "emit_loop sg cat fs st1 = (ex, st')" by simp
    from Cons.IH [OF this] obtain j where j: "j \<le> length fs"
      and "map fst (calls st') = map fst (calls st1) @ take j (map fst fs)" by blast
    with call_slot_calls [OF c] p
    have "map fst (calls st') = map fst (calls st) @ take (Suc j) (map fst (p # fs))" by simp
    moreover from j have "Suc j \<le> length (p # fs)" by simp
    ultimately show ?thesis by blast
  qed
qed


lemma emit_loop_not_registered:
  "emit_loop sg cat fs st = (ex, st') \<Longrightarrow> n \<notin> fst ` set fs \<Longrightarrow> n \<notin> fst ` set (calls st)
     \<Longrightarrow> n \<notin> fst ` set (calls st')"
proof -
  assume e: "emit_loop sg cat fs st = (ex, st')" and a: "n \<notin> fst ` set fs"
    and b: "n \<notin> fst ` set (calls st)"
  from emit_loop_calls_prefix [OF e] obtain j where
    "map fst (calls st') = map fst (calls st) @ take j (map fst fs)" by blast
  then have "set (map fst (calls st')) = set (map fst (calls st)) \<union> set (take j (map fst fs))"
    by simp
  moreover have "set (take j (map fst fs)) \<subseteq> set (map fst fs)" by (rule set_take_subset)
  ultimately have "set (map fst (calls st')) \<subseteq> fst ` set (calls st) \<union> fst ` set fs" by auto
  with a b show ?thesis by auto
qed

lemma emit_not_registered:
  "n \<notin> set (nodes sig) \<Longrightarrow> n \<notin> fst ` set (calls (snd (emit sg cat sig a w)))"
proof -
  assume a: "n \<notin> set (nodes sig)"
  obtain ex st' where e: "emit_loop sg cat (slots sig) \<lparr>args = a, world = w, calls = []\<rparr> = (ex, st')"
    by (cases "emit_loop sg cat (slots sig) \<lparr>args = a, world = w, calls = []\<rparr>")
  from a have "n \<notin> fst ` set (slots sig)" by (simp add: nodes_def)
  from emit_loop_not_registered [OF e this] e show ?thesis by (simp add: emit_def)
qed

lemma filter_fresh:
  "n \<notin> fst ` set xs \<Longrightarrow> filter (\<lambda>p. fst p \<noteq> n) xs = xs"
  by (intro filter_True) auto

lemma emit_normal_nodes:
  "fst (emit sg cat sig a w) = None \<Longrightarrow> map fst (calls (snd (emit sg cat sig a w))) = nodes sig"
proof -
  assume a: "fst (emit sg cat sig a w) = None"
  obtain st' where e: "emit_loop sg cat (slots sig) \<lparr>args = a, world = w, calls = []\<rparr> = (None, st')"
    using a by (cases "emit sg cat sig a w") (simp add: emit_def)
  from emit_loop_normal_calls [OF e] e show ?thesis by (simp add: nodes_def emit_def)
qed

lemma inc_throw_log_eq:
  "inc_throw_log = \<lparr>slots = [(0, incrementing_slot), (1, throwing_slot ''boom''), (2, logging_slot ''C'' 3)], next_node = 3\<rparr>"
  by (simp add: inc_throw_log_def connect_def empty_signal_def)












text \<open>
  Claim C5. When the slots registered before some slot return normally and that slot
  throws \<open>e\<close>, \<^verbatim>\<open>emit\<close> ends with the exception \<open>e\<close> itself, in the state the throwing
  slot left, and the slots invoked are the ones before it and the throwing one: no slot
  registered after it is invoked.
\<close>

theorem emit_fail_fast:
  assumes "slots sig = pre @ (n, f) # post"
    and "emit_loop sg cat pre \<lparr>args = a, world = w, calls = []\<rparr> = (None, st)"
    and "call_slot sg cat n f st = (Inl e, st')"
  shows "emit sg cat sig a w = (Some e, st')
         \<and> map fst (calls st') = map fst pre @ [n]"
proof -
  have "emit sg cat sig a w = (Some e, st')"
    using assms by (simp add: emit_def emit_loop_append)
  moreover from emit_loop_normal_calls [OF assms(2)] call_slot_calls [OF assms(3)]
  have "map fst (calls st') = map fst pre @ [n]" by simp
  ultimately show ?thesis by simp
qed


theorem emit_fail_fast_witness:
  "slots inc_throw_log = [(0, incrementing_slot)] @ (1, throwing_slot ''boom'') # [(2, logging_slot ''C'' 3)]
   \<and> emit_loop int_by_reference Lvalue [(0, incrementing_slot)] \<lparr>args = 5, world = [], calls = []\<rparr>
       = (None, \<lparr>args = 6, world = [], calls = [(0, 5)]\<rparr>)
   \<and> call_slot int_by_reference Lvalue 1 (throwing_slot ''boom'') \<lparr>args = 6, world = [], calls = [(0, 5)]\<rparr>
       = (Inl ''boom'', \<lparr>args = 6, world = [], calls = [(0, 5), (1, 6)]\<rparr>)
   \<and> emit int_by_reference Lvalue inc_throw_log 5 []
       = (Some ''boom'', \<lparr>args = 6, world = [], calls = [(0, 5), (1, 6)]\<rparr>)"
proof -
  have s: "slots inc_throw_log
      = [(0, incrementing_slot)] @ (1, throwing_slot ''boom'') # [(2, logging_slot ''C'' 3)]"
    by (simp add: inc_throw_log_eq)
  have p: "emit_loop int_by_reference Lvalue [(0, incrementing_slot)]
        \<lparr>args = 5, world = ([] :: (string \<times> int) list), calls = []\<rparr>
      = (None :: string option, \<lparr>args = 6, world = [], calls = [(0, 5)]\<rparr>)"
    by (simp add: call_slot_def invoke_def int_by_reference_def incrementing_slot_def)
  have c: "call_slot int_by_reference Lvalue 1 (throwing_slot ''boom'')
        \<lparr>args = 6, world = [], calls = [(0, 5)]\<rparr>
      = (Inl ''boom'', \<lparr>args = 6, world = [], calls = [(0, 5), (1, 6)]\<rparr>)"
    by (simp add: call_slot_def invoke_def int_by_reference_def throwing_slot_def)
  from emit_fail_fast [OF s p c] s p c show ?thesis by blast
qed


text \<open>
  Claim C7. Once the connection of a registered slot is disconnected, the registry is
  the old one without that slot's entry, the slot's node is out of the registry for
  good (\<open>erased_node_stays_out_connect\<close>, \<open>erased_node_stays_out_disconnect\<close>), and no
  emission on the signal, whatever the arguments, invokes that slot. The example that
  follows the theorem is the scenario of the specification: A, B and C connected in
  that order, B disconnected, then \<^verbatim>\<open>emit(5)\<close> invokes A with 5 and then C with 5.
\<close>

theorem disconnected_slot_not_invoked:
  assumes "wf_signal sig" and "erase_func c = EraseLambda n" and "n \<in> set (nodes sig)"
  shows "\<exists>c' sig'. disconnect c sig = Inr (c', sig')
           \<and> slots sig' = filter (\<lambda>p. fst p \<noteq> n) (slots sig)
           \<and> n \<notin> set (nodes sig') \<and> n < next_node sig'
           \<and> (\<forall>sg cat a w. n \<notin> fst ` set (calls (snd (emit sg cat sig' a w))))"
proof -
  let ?c = "c\<lparr>erase_func := NoopLambda\<rparr>"
  let ?s = "sig\<lparr>slots := filter (\<lambda>p. fst p \<noteq> n) (slots sig)\<rparr>"
  have d: "disconnect c sig = Inr (?c, ?s)"
    by (rule disconnect_live [OF assms])
  have out: "n \<notin> set (nodes ?s)" by (auto simp: nodes_def)
  from assms(1,3) have less: "n < next_node ?s" by (auto simp: wf_signal_def list_all_iff)
  have "n \<notin> fst ` set (calls (snd (emit sg cat ?s a w)))" for sg cat a w
    using out by (rule emit_not_registered)
  with d out less show ?thesis by simp
qed

theorem disconnected_slot_not_invoked_witness:
  "wf_signal (snd (snd (snd abc_signal)))
   \<and> erase_func (fst (snd abc_signal)) = EraseLambda 1
   \<and> 1 \<in> set (nodes (snd (snd (snd abc_signal))))
   \<and> (\<exists>c' sig'. disconnect (fst (snd abc_signal)) (snd (snd (snd abc_signal))) = Inr (c', sig')
         \<and> 1 \<notin> fst ` set (calls (snd (emit int_by_value Rvalue sig' 5 [])))
         \<and> emit int_by_value Rvalue sig' 5 []
             = (None, \<lparr>args = 5, world = [(''A'', 5), (''C'', 5)], calls = [(0, 5), (2, 5)]\<rparr>))"
proof -
  let ?s = "snd (snd (snd abc_signal))" and ?c = "fst (snd abc_signal)"
  have w: "wf_signal ?s" by (simp add: abc_signal_eq wf_signal_def nodes_def)
  have e: "erase_func ?c = EraseLambda 1" by (simp add: abc_signal_eq)
  have n: "1 \<in> set (nodes ?s)" by (simp add: abc_signal_eq nodes_def)
  from disconnected_slot_not_invoked [OF w e n]
  obtain c' sig' where d: "disconnect ?c ?s = Inr (c', sig')"
    and f: "slots sig' = filter (\<lambda>p. fst p \<noteq> 1) (slots ?s)"
    and k: "\<forall>sg cat a w. 1 \<notin> fst ` set (calls (snd (emit sg cat sig' a w)))"
    by blast
  from f have "slots sig' = [(0, logging_slot ''A'' 1), (2, logging_slot ''C'' 3)]"
    by (simp add: abc_signal_eq)
  then have "emit int_by_value Rvalue sig' 5 []
             = (None, \<lparr>args = 5, world = [(''A'', 5), (''C'', 5)], calls = [(0, 5), (2, 5)]\<rparr>)"
    by (simp add: emit_def call_slot_def invoke_def int_by_value_def logging_slot_def)
  moreover from k have "1 \<notin> fst ` set (calls (snd (emit int_by_value Rvalue sig' 5 [])))"
    by blast
  ultimately show ?thesis using w e n d by blast
qed

text \<open>
  The same scenario for any three slots of a signal with an \<^verbatim>\<open>int\<close> parameter: B is not
  invoked; A is invoked with 5, and C with 5 after it unless A throws.
\<close>

lemma scenario_connect_abc_disconnect_b:
  fixes A B C :: "(int, 'r, 'e, 'w) slot_type"
  shows "case connect empty_signal A of (ca, s1) \<Rightarrow>
          (case connect s1 B of (cb, s2) \<Rightarrow>
            (case connect s2 C of (cc, s3) \<Rightarrow>
              (\<exists>cb' s4. disconnect cb s3 = Inr (cb', s4)
                 \<and> slots s4 = [(0, A), (2, C)]
                 \<and> 1 \<notin> fst ` set (calls (snd (emit int_by_value Rvalue s4 5 w)))
                 \<and> (case fst (A 5 w) of
                       Inl e \<Rightarrow> calls (snd (emit int_by_value Rvalue s4 5 w)) = [(0, 5)]
                     | Inr r \<Rightarrow> calls (snd (emit int_by_value Rvalue s4 5 w)) = [(0, 5), (2, 5)]))))"
  by (auto simp: connect_def Let_def empty_signal_def disconnect_def call_erase_func_def
        emit_def call_slot_def invoke_def int_by_value_def split: prod.splits sum.splits)

text \<open>
  Claim C10. Connecting the same callable twice appends two entries at two different
  nodes; an emission that returns normally invokes both, after the slots that were
  there before; and disconnecting either of the two connections removes its own entry
  and leaves the other one registered, where a later emission invokes it.
\<close>

theorem connect_same_callable_twice:
  assumes "wf_signal sig"
  shows "case connect sig f of (c1, s1) \<Rightarrow> (case connect s1 f of (c2, s2) \<Rightarrow>
      slots s2 = slots sig @ [(next_node sig, f), (Suc (next_node sig), f)]
    \<and> (\<forall>sg cat a w. fst (emit sg cat s2 a w) = None \<longrightarrow>
          map fst (calls (snd (emit sg cat s2 a w))) = nodes sig @ [next_node sig, Suc (next_node sig)])
    \<and> (\<exists>c1' s3. disconnect c1 s2 = Inr (c1', s3)
          \<and> slots s3 = slots sig @ [(Suc (next_node sig), f)]
          \<and> (\<forall>sg cat a w. fst (emit sg cat s3 a w) = None \<longrightarrow>
                map fst (calls (snd (emit sg cat s3 a w))) = nodes sig @ [Suc (next_node sig)]))
    \<and> (\<exists>c2' s3. disconnect c2 s2 = Inr (c2', s3)
          \<and> slots s3 = slots sig @ [(next_node sig, f)]
          \<and> (\<forall>sg cat a w. fst (emit sg cat s3 a w) = None \<longrightarrow>
                map fst (calls (snd (emit sg cat s3 a w))) = nodes sig @ [next_node sig])))"
proof -
  let ?n = "next_node sig"
  let ?s2 = "sig\<lparr>slots := slots sig @ [(?n, f), (Suc ?n, f)], next_node := Suc (Suc ?n)\<rparr>"
  let ?c1 = "\<lparr>erase_func = EraseLambda ?n\<rparr>" and ?c2 = "\<lparr>erase_func = EraseLambda (Suc ?n)\<rparr>"
  let ?s1 = "sig\<lparr>slots := slots sig @ [(?n, f)], next_node := Suc ?n\<rparr>"
  have c1: "connect sig f = (?c1, ?s1)" by (simp add: connect_def Let_def)
  have c2: "connect ?s1 f = (?c2, ?s2)" by (simp add: connect_def Let_def)
  have wf2: "wf_signal ?s2"
    using wf_connect [OF wf_connect [OF assms], of f f] c1 c2 by simp
  have fresh: "?n \<notin> fst ` set (slots sig)" "Suc ?n \<notin> fst ` set (slots sig)"
    using assms by (auto simp: wf_signal_def nodes_def list_all_iff)
  have n2: "nodes ?s2 = nodes sig @ [?n, Suc ?n]" by (simp add: nodes_def)
  have e2: "map fst (calls (snd (emit sg cat ?s2 a w))) = nodes sig @ [?n, Suc ?n]"
    if "fst (emit sg cat ?s2 a w) = None" for sg cat a w
    using emit_normal_nodes [OF that] n2 by simp
  let ?s3 = "?s2\<lparr>slots := slots sig @ [(Suc ?n, f)]\<rparr>"
  have d1: "disconnect ?c1 ?s2 = Inr (?c1\<lparr>erase_func := NoopLambda\<rparr>, ?s3)"
    using disconnect_live [OF wf2, of ?c1 ?n] fresh by (simp add: nodes_def filter_fresh)
  have e3: "map fst (calls (snd (emit sg cat ?s3 a w))) = nodes sig @ [Suc ?n]"
    if "fst (emit sg cat ?s3 a w) = None" for sg cat a w
    using emit_normal_nodes [OF that] by (simp add: nodes_def)
  let ?s4 = "?s2\<lparr>slots := slots sig @ [(?n, f)]\<rparr>"
  have d2: "disconnect ?c2 ?s2 = Inr (?c2\<lparr>erase_func := NoopLambda\<rparr>, ?s4)"
    using disconnect_live [OF wf2, of ?c2 "Suc ?n"] fresh by (simp add: nodes_def filter_fresh)
  have e4: "map fst (calls (snd (emit sg cat ?s4 a w))) = nodes sig @ [?n]"
    if "fst (emit sg cat ?s4 a w) = None" for sg cat a w
    using emit_normal_nodes [OF that] by (simp add: nodes_def)
  have r2: "slots ?s2 = slots sig @ [(?n, f), (Suc ?n, f)]" by simp
  have r3: "slots ?s3 = slots sig @ [(Suc ?n, f)]" by simp
  have r4: "slots ?s4 = slots sig @ [(?n, f)]" by simp
  show ?thesis
    unfolding c1 c2 prod.case
  proof (intro conjI allI impI)
    show "slots ?s2 = slots sig @ [(?n, f), (Suc ?n, f)]" by (rule r2)
    show "map fst (calls (snd (emit sg cat ?s2 a w))) = nodes sig @ [?n, Suc ?n]"
      if "fst (emit sg cat ?s2 a w) = None" for sg cat a w
      using that by (rule e2)
    show "\<exists>c1' s3. disconnect ?c1 ?s2 = Inr (c1', s3)
          \<and> slots s3 = slots sig @ [(Suc ?n, f)]
          \<and> (\<forall>sg cat a w. fst (emit sg cat s3 a w) = None \<longrightarrow>
                map fst (calls (snd (emit sg cat s3 a w))) = nodes sig @ [Suc ?n])"
      using d1 r3 e3 by blast
    show "\<exists>c2' s3. disconnect ?c2 ?s2 = Inr (c2', s3)
          \<and> slots s3 = slots sig @ [(?n, f)]
          \<and> (\<forall>sg cat a w. fst (emit sg cat s3 a w) = None \<longrightarrow>
                map fst (calls (snd (emit sg cat s3 a w))) = nodes sig @ [?n])"
      using d2 r4 e4 by blast
  qed
qed

theorem connect_same_callable_twice_witness:
  "wf_signal (empty_signal :: example_signal)
   \<and> slots (snd (connect (snd (connect (empty_signal :: example_signal) (logging_slot ''A'' 1))) (logging_slot ''A'' 1)))
       = [(0, logging_slot ''A'' 1), (1, logging_slot ''A'' 1)]
   \<and> emit int_by_value Rvalue
        (snd (connect (snd (connect (empty_signal :: example_signal) (logging_slot ''A'' 1))) (logging_slot ''A'' 1))) 5 []
       = (None, \<lparr>args = 5, world = [(''A'', 5), (''A'', 5)], calls = [(0, 5), (1, 5)]\<rparr>)"
proof -
  let ?f = "logging_slot ''A'' 1"
  let ?e = "empty_signal :: example_signal"
  have w: "wf_signal ?e" by (rule wf_empty_signal)
  from connect_same_callable_twice [OF w, of ?f]
  have "slots (snd (connect (snd (connect ?e ?f)) ?f))
      = slots ?e @ [(next_node ?e, ?f), (Suc (next_node ?e), ?f)]"
    by (simp split: prod.splits)
  then have s: "slots (snd (connect (snd (connect ?e ?f)) ?f)) = [(0, ?f), (1, ?f)]"
    by (simp add: empty_signal_def)
  then have "emit int_by_value Rvalue (snd (connect (snd (connect ?e ?f)) ?f)) 5 []
       = (None, \<lparr>args = 5, world = [(''A'', 5), (''A'', 5)], calls = [(0, 5), (1, 5)]\<rparr>)"
    by (simp add: emit_def call_slot_def invoke_def int_by_value_def logging_slot_def)
  with w s show ?thesis by blast
qed


section \<open>Result iteration\<close>

lemma map_of_at:
  "n \<notin> fst ` set pre \<Longrightarrow> map_of (pre @ (n, f) # post) n = Some f"
  by (induction pre) auto

lemma list_next_at:
  "n \<notin> fst ` set pre \<Longrightarrow> list_next n (pre @ (n, f) # post) = Some (list_begin post)"
  by (induction pre) auto

lemma call_each_calls_prefix:
  "call_each sg fs rs st = (ex, rs', st') \<Longrightarrow>
     \<exists>j \<le> length fs. map fst (calls st') = map fst (calls st) @ take j (map fst fs)
        \<and> (ex = None \<longrightarrow> j = length fs \<and> length rs' = length rs + length fs)"
proof (induction fs arbitrary: rs st)
  case Nil
  then show ?case by simp
next
  case (Cons p fs)
  obtain n f where p: "p = (n, f)" by (cases p)
  obtain out st1 where c: "call_slot sg Lvalue n f st = (out, st1)"
    by (cases "call_slot sg Lvalue n f st")
  show ?case
  proof (cases out)
    case (Inl e)
    with Cons.prems p c have "st' = st1" and "ex = Some e" by simp_all
    with call_slot_calls [OF c] p
    have "map fst (calls st') = map fst (calls st) @ take 1 (map fst (p # fs))
        \<and> (ex = None \<longrightarrow> 1 = length (p # fs) \<and> length rs' = length rs + length (p # fs))"
      by simp
    moreover have "1 \<le> length (p # fs)" by simp
    ultimately show ?thesis by blast
  next
    case (Inr r)
    with Cons.prems p c have "call_each sg fs (rs @ [r]) st1 = (ex, rs', st')" by simp
    from Cons.IH [OF this] obtain j where j: "j \<le> length fs"
      and "map fst (calls st') = map fst (calls st1) @ take j (map fst fs)"
      and "ex = None \<longrightarrow> j = length fs \<and> length rs' = length (rs @ [r]) + length fs" by blast
    with call_slot_calls [OF c] p
    have "map fst (calls st') = map fst (calls st) @ take (Suc j) (map fst (p # fs))
       \<and> (ex = None \<longrightarrow> Suc j = length (p # fs) \<and> length rs' = length rs + length (p # fs))" by simp
    moreover from j have "Suc j \<le> length (p # fs)" by simp
    ultimately show ?thesis by blast
  qed
qed

lemma consume_from:
  assumes "slots sig = pre @ rest" and "distinct (map fst (pre @ rest))"
    and "call_each sg (take k rest) rs st = (ex, rs', st')"
  shows "\<exists>it'. consume k sg sig Alive \<lparr>iter = list_begin rest\<rparr> rs st = Inr (ex, rs', it', st')
           \<and> (ex = None \<longrightarrow> iter it' = list_begin (drop k rest))"
  using assms
proof (induction k arbitrary: pre rest rs st)
  case 0
  then show ?case by simp
next
  case (Suc k)
  show ?case
  proof (cases rest)
    case Nil
    with Suc.prems show ?thesis by (simp add: list_begin_def iterate_end_def)
  next
    case (Cons p rest')
    obtain n f where p: "p = (n, f)" by (cases p)
    from Suc.prems(2) Cons p have fresh: "n \<notin> fst ` set pre" by auto
    have it: "\<lparr>iter = list_begin rest\<rparr> \<noteq> iterate_end sig"
      using Cons p by (simp add: list_begin_def iterate_end_def)
    have lb: "list_begin rest = AtNode n" using Cons p by (simp add: list_begin_def)
    have d: "deref sg sig Alive \<lparr>iter = list_begin rest\<rparr> st = Inr (call_slot sg Lvalue n f st)"
      using Suc.prems(1) Cons p map_of_at [OF fresh] lb by (simp add: deref_def)
    have a: "advance sig \<lparr>iter = list_begin rest\<rparr> = Inr \<lparr>iter = list_begin rest'\<rparr>"
      using Suc.prems(1) Cons p list_next_at [OF fresh] lb by (simp add: advance_def)
    obtain out st1 where c: "call_slot sg Lvalue n f st = (out, st1)"
      by (cases "call_slot sg Lvalue n f st")
    show ?thesis
    proof (cases out)
      case (Inl e)
      with Suc.prems(3) Cons p c have "ex = Some e" "rs' = rs" "st' = st1" by simp_all
      with it d c Inl show ?thesis by simp
    next
      case (Inr r)
      with Suc.prems(3) Cons p c have ce: "call_each sg (take k rest') (rs @ [r]) st1 = (ex, rs', st')"
        by simp
      have s: "slots sig = (pre @ [(n, f)]) @ rest'" using Suc.prems(1) Cons p by simp
      have ds: "distinct (map fst ((pre @ [(n, f)]) @ rest'))" using Suc.prems(2) Cons p by simp
      from Suc.IH [OF s ds ce] obtain it' where
        "consume k sg sig Alive \<lparr>iter = list_begin rest'\<rparr> (rs @ [r]) st1 = Inr (ex, rs', it', st')"
        and "ex = None \<longrightarrow> iter it' = list_begin (drop k rest')" by blast
      with it d a c Inr Cons show ?thesis by simp
    qed
  qed
qed


lemma call_each_from_empty:
  assumes "call_each sg fs [] st = (ex, rs', st')"
  shows "\<exists>j \<le> length fs. map fst (calls st') = map fst (calls st) @ take j (map fst fs)
        \<and> (ex = None \<longrightarrow> j = length fs \<and> length rs' = length fs)"
  using call_each_calls_prefix [OF assms] by simp

lemma take_take_map: "j \<le> k \<Longrightarrow> take j (map f (take k xs)) = take j (map f xs)"
  by (simp add: take_map min_absorb1)

lemma len_take_k: "take (length (take k xs)) (map f (take k xs)) = take k (map f xs)"
proof -
  have "take (length (take k xs)) (map f (take k xs)) = map f (take k xs)" by simp
  then show ?thesis by (simp only: take_map)
qed

lemma call_each_emit_loop:
  "call_each sg fs rs st = (ex, rs', st') \<Longrightarrow> emit_loop sg Lvalue fs st = (ex, st')"
proof (induction fs arbitrary: rs st)
  case Nil
  then show ?case by simp
next
  case (Cons p fs)
  obtain n f where p: "p = (n, f)" by (cases p)
  obtain out st1 where c: "call_slot sg Lvalue n f st = (out, st1)"
    by (cases "call_slot sg Lvalue n f st")
  show ?case
  proof (cases out)
    case (Inl e)
    with Cons.prems p c show ?thesis by simp
  next
    case (Inr r)
    with Cons.prems p c have "call_each sg fs (rs @ [r]) st1 = (ex, rs', st')" by simp
    from Cons.IH [OF this] Inr p c show ?thesis by simp
  qed
qed

text \<open>
  A consumer that is ready to take at least as many elements as there are slots gets
  them all and stops at \<^verbatim>\<open>end()\<close>: the iteration ends.
\<close>

lemma consume_whole_sequence:
  assumes "wf_signal sig" and "length (slots sig) \<le> k"
    and "call_each sg (slots sig) [] st = (ex, rs, st')"
  shows "\<exists>it'. consume k sg sig Alive (iterate_begin sig) [] st = Inr (ex, rs, it', st')
           \<and> (ex = None \<longrightarrow> it' = iterate_end sig)"
proof -
  from assms(1) have dist: "distinct (map fst ([] @ slots sig))"
    by (simp add: wf_signal_def nodes_def)
  from assms(2,3) have ce: "call_each sg (take k (slots sig)) [] st = (ex, rs, st')" by simp
  have "slots sig = [] @ slots sig" by simp
  from consume_from [OF this dist ce] obtain it' where
    c: "consume k sg sig Alive \<lparr>iter = list_begin (slots sig)\<rparr> [] st = Inr (ex, rs, it', st')"
    and e: "ex = None \<longrightarrow> iter it' = list_begin (drop k (slots sig))" by blast
  from e assms(2) have "ex = None \<longrightarrow> it' = iterate_end sig"
    by (cases it') (simp add: list_begin_def iterate_end_def)
  with c show ?thesis by (auto simp: iterate_begin_def)
qed

text \<open>
  Result iteration over an argument that exists while the sequence is consumed. A
  consumer that takes at most \<open>k\<close> elements gets exactly what calling the first \<open>k\<close>
  registered slots one by one with the argument gives: the same results in the same
  order, the same exception if a slot throws, the same final state, and the same calls
  as the loop of \<^verbatim>\<open>emit\<close> over those slots with an lvalue argument. The slots invoked
  are a prefix of the first \<open>k\<close> registered ones, all \<open>k\<close> of them when none throws,
  although the iterator then stands at the slot after them (at the end when there is
  none): incrementing invoked nothing. Dereferencing an iterator at a registered node
  calls the slot stored at that node and no other, and incrementing it moves it to the
  next node; \<^verbatim>\<open>operator++\<close> has no access to the argument or the world.
\<close>

theorem emit_iterate_alive_refines_manual_loop:
  assumes "wf_signal sig"
  shows "(case call_each sg (take k (slots sig)) [] st of
            (ex, rs, st') \<Rightarrow>
              (\<exists>it'. consume k sg sig Alive (iterate_begin sig) [] st = Inr (ex, rs, it', st')
                  \<and> (ex = None \<longrightarrow> iter it' = list_begin (drop k (slots sig))))
              \<and> emit_loop sg Lvalue (take k (slots sig)) st = (ex, st')
              \<and> (\<exists>j \<le> k. map fst (calls st') = map fst (calls st) @ take j (nodes sig))
              \<and> (ex = None \<longrightarrow>
                    map fst (calls st') = map fst (calls st) @ take k (nodes sig)
                    \<and> length rs = length (take k (slots sig))))
         \<and> (\<forall>pre n f post. slots sig = pre @ (n, f) # post \<longrightarrow>
               deref sg sig Alive \<lparr>iter = AtNode n\<rparr> st = Inr (call_slot sg Lvalue n f st)
               \<and> calls (snd (call_slot sg Lvalue n f st)) = calls st @ [(n, args st)]
               \<and> advance sig \<lparr>iter = AtNode n\<rparr> = Inr \<lparr>iter = list_begin post\<rparr>)"
proof -
  from assms have dist: "distinct (map fst (slots sig))" by (simp add: wf_signal_def nodes_def)
  obtain ex rs st' where ce: "call_each sg (take k (slots sig)) [] st = (ex, rs, st')"
    by (cases "call_each sg (take k (slots sig)) [] st")
  have "slots sig = [] @ slots sig" and "distinct (map fst ([] @ slots sig))"
    using dist by simp_all
  from consume_from [OF this ce]
  have 1: "\<exists>it'. consume k sg sig Alive (iterate_begin sig) [] st = Inr (ex, rs, it', st')
             \<and> (ex = None \<longrightarrow> iter it' = list_begin (drop k (slots sig)))"
    by (simp add: iterate_begin_def)
  have 2: "emit_loop sg Lvalue (take k (slots sig)) st = (ex, st')"
    by (rule call_each_emit_loop [OF ce])
  from call_each_from_empty [OF ce] obtain j where j: "j \<le> length (take k (slots sig))"
    and pj: "map fst (calls st') = map fst (calls st) @ take j (map fst (take k (slots sig)))"
    and n: "ex = None \<longrightarrow> j = length (take k (slots sig))
              \<and> length rs = length (take k (slots sig))"
    by blast
  from j have jk: "j \<le> k" by simp
  have tj: "take j (map fst (take k (slots sig))) = take j (nodes sig)"
    unfolding nodes_def by (rule take_take_map [OF jk])
  have pj': "map fst (calls st') = map fst (calls st) @ take j (nodes sig)"
    by (simp only: pj tj)
  with jk have 3: "\<exists>j \<le> k. map fst (calls st') = map fst (calls st) @ take j (nodes sig)"
    by blast
  have 4: "map fst (calls st') = map fst (calls st) @ take k (nodes sig)
             \<and> length rs = length (take k (slots sig))" if "ex = None"
  proof -
    from n that have jl: "j = length (take k (slots sig))"
      and l: "length rs = length (take k (slots sig))" by simp_all
    have "take j (map fst (take k (slots sig))) = take k (nodes sig)"
      unfolding jl nodes_def by (rule len_take_k)
    with pj have "map fst (calls st') = map fst (calls st) @ take k (nodes sig)"
      by (simp only:)
    with l show ?thesis by (intro conjI)
  qed
  have 5: "deref sg sig Alive \<lparr>iter = AtNode n\<rparr> st = Inr (call_slot sg Lvalue n f st)
            \<and> calls (snd (call_slot sg Lvalue n f st)) = calls st @ [(n, args st)]
            \<and> advance sig \<lparr>iter = AtNode n\<rparr> = Inr \<lparr>iter = list_begin post\<rparr>"
    if s: "slots sig = pre @ (n, f) # post" for pre n f post
  proof -
    from dist s have fresh: "n \<notin> fst ` set pre" by auto
    have "deref sg sig Alive \<lparr>iter = AtNode n\<rparr> st = Inr (call_slot sg Lvalue n f st)"
      using s map_of_at [OF fresh] by (simp add: deref_def)
    moreover have "advance sig \<lparr>iter = AtNode n\<rparr> = Inr \<lparr>iter = list_begin post\<rparr>"
      using s list_next_at [OF fresh] by (simp add: advance_def)
    moreover have "calls (snd (call_slot sg Lvalue n f st)) = calls st @ [(n, args st)]"
      by (simp add: call_slot_def split: prod.splits)
    ultimately show ?thesis by simp
  qed
  show ?thesis
    unfolding ce prod.case
  proof (intro conjI allI impI)
    show "\<exists>it'. consume k sg sig Alive (iterate_begin sig) [] st = Inr (ex, rs, it', st')
             \<and> (ex = None \<longrightarrow> iter it' = list_begin (drop k (slots sig)))" by (rule 1)
    show "emit_loop sg Lvalue (take k (slots sig)) st = (ex, st')" by (rule 2)
    show "\<exists>j \<le> k. map fst (calls st') = map fst (calls st) @ take j (nodes sig)" by (rule 3)
    show "map fst (calls st') = map fst (calls st) @ take k (nodes sig)" if "ex = None"
      using 4 that by simp
    show "length rs = length (take k (slots sig))" if "ex = None"
      using 4 that by simp
    show "deref sg sig Alive \<lparr>iter = AtNode n\<rparr> st = Inr (call_slot sg Lvalue n f st)"
      if "slots sig = pre @ (n, f) # post" for pre n f post using 5 that by blast
    show "calls (snd (call_slot sg Lvalue n f st)) = calls st @ [(n, args st)]"
      if "slots sig = pre @ (n, f) # post" for pre n f post using 5 that by blast
    show "advance sig \<lparr>iter = AtNode n\<rparr> = Inr \<lparr>iter = list_begin post\<rparr>"
      if "slots sig = pre @ (n, f) # post" for pre n f post using 5 that by blast
  qed
qed

theorem emit_iterate_alive_example:
  "wf_signal (snd (snd (snd abc_signal)))
   \<and> call_each int_by_value (take 1 (slots (snd (snd (snd abc_signal))))) []
        \<lparr>args = 7, world = [], calls = []\<rparr>
       = (None, [1], \<lparr>args = 7, world = [(''A'', 7)], calls = [(0, 7)]\<rparr>)
   \<and> consume 1 int_by_value (snd (snd (snd abc_signal))) Alive (iterate_begin (snd (snd (snd abc_signal)))) []
        \<lparr>args = 7, world = [], calls = []\<rparr>
       = Inr (None, [1], \<lparr>iter = AtNode 1\<rparr>, \<lparr>args = 7, world = [(''A'', 7)], calls = [(0, 7)]\<rparr>)"
proof -
  let ?s = "snd (snd (snd abc_signal))"
  let ?st = "\<lparr>args = 7 :: int, world = [] :: (string \<times> int) list, calls = []\<rparr>"
  let ?st' = "\<lparr>args = 7 :: int, world = [(''A'', 7 :: int)], calls = [(0, 7)]\<rparr>"
  have w: "wf_signal ?s" by (simp add: abc_signal_eq wf_signal_def nodes_def)
  have c: "call_each int_by_value (take 1 (slots ?s)) [] ?st = (None :: string option, [1], ?st')"
    by (simp add: abc_signal_eq call_slot_def invoke_def int_by_value_def logging_slot_def)
  have "case call_each int_by_value (take 1 (slots ?s)) [] ?st of
          (ex, rs, st') \<Rightarrow>
            (\<exists>it'. consume 1 int_by_value ?s Alive (iterate_begin ?s) [] ?st = Inr (ex, rs, it', st')
               \<and> (ex = None \<longrightarrow> iter it' = list_begin (drop 1 (slots ?s))))"
    using emit_iterate_alive_refines_manual_loop [OF w, where sg = int_by_value and k = 1 and st = ?st]
    by (simp only: prod.case_distrib split_beta) 
  then obtain it' where k: "consume 1 int_by_value ?s Alive (iterate_begin ?s) [] ?st = Inr (None, [1], it', ?st')"
    and i: "iter it' = list_begin (drop 1 (slots ?s))"
    unfolding c prod.case by (elim exE conjE) simp
  from i have "iter it' = AtNode 1" by (simp add: abc_signal_eq list_begin_def)
  then have "it' = \<lparr>iter = AtNode 1\<rparr>" by (cases it') simp
  with w c k show ?thesis by (simp only: simp_thms)
qed


lemma range_for_lvalue:
  "range_for k sg Lvalue sig st = consume k sg sig Alive (iterate_begin sig) [] st"
  by (simp add: range_for_def in_range_for_def)

lemma range_for_rvalue_dangles:
  assumes "slots sig \<noteq> []"
  shows "range_for (Suc k) sg Rvalue sig st = Inl DanglingReference"
proof -
  from assms obtain n f rest where s: "slots sig = (n, f) # rest"
    by (cases "slots sig") auto
  then have b: "iterate_begin sig = \<lparr>iter = AtNode n\<rparr>"
    by (simp add: iterate_begin_def list_begin_def)
  have "deref sg sig Ended \<lparr>iter = AtNode n\<rparr> st = Inl DanglingReference"
    using s by (simp add: deref_def)
  with b show ?thesis
    by (simp add: range_for_def in_range_for_def iterate_end_def)
qed

text \<open>
  Claim C4 asks, for every argument set, that the sequence of \<^verbatim>\<open>emit_iterate\<close> yields
  what calling the registered slots one by one with those arguments yields. The code
  does so for an argument that exists while the sequence is consumed
  (\<open>emit_iterate_alive_refines_manual_loop\<close>, \<open>range_for_lvalue\<close>). It does not for
  an rvalue argument. In the scenario of the specification,
  \<^verbatim>\<open>for (auto r : sig.emit_iterate(7))\<close> over slots returning 1, 2 and 3 and left after
  the first element, calling the first slot with 7 gives the result 1; but
  \<^verbatim>\<open>stored_args\<close> refers to the temporary \<^verbatim>\<open>7\<close>, which is destroyed before the loop
  starts, and the first \<^verbatim>\<open>operator*\<close> reads through the dangling reference. With
  \<^verbatim>\<open>int x = 7;\<close> and \<^verbatim>\<open>sig.emit_iterate(x)\<close> the same loop gives 1 and invokes the
  first slot only.
\<close>

theorem emit_iterate_temporary_argument_dangles:
  "call_each int_by_value (take 1 (slots (snd (snd (snd abc_signal))))) []
      \<lparr>args = 7, world = [], calls = []\<rparr>
     = (None, [1], \<lparr>args = 7, world = [(''A'', 7)], calls = [(0, 7)]\<rparr>)
   \<and> range_for 1 int_by_value Rvalue (snd (snd (snd abc_signal)))
      \<lparr>args = 7, world = [], calls = []\<rparr>
     = Inl DanglingReference
   \<and> range_for 1 int_by_value Lvalue (snd (snd (snd abc_signal)))
      \<lparr>args = 7, world = [], calls = []\<rparr>
     = Inr (None, [1], \<lparr>iter = AtNode 1\<rparr>, \<lparr>args = 7, world = [(''A'', 7)], calls = [(0, 7)]\<rparr>)"
  by (simp add: abc_signal_eq range_for_def in_range_for_def iterate_begin_def iterate_end_def
      list_begin_def deref_def advance_def call_slot_def invoke_def int_by_value_def
      logging_slot_def)

section \<open>Scoped connections\<close>

text \<open>
  A scoped connection that was not moved from removes its slot when it is destroyed,
  and removes nothing else. A moved-from one that was left without a target throws
  \<^verbatim>\<open>std::bad_function_call\<close> from \<^verbatim>\<open>disconnect()\<close>, and so from its destructor,
  whatever state the signal is in.
\<close>

lemma destroy_scoped_live:
  assumes "wf_signal sig" and "erase_func c = EraseLambda n" and "n \<in> set (nodes sig)"
  shows "destroy_scoped c sig = Inr (sig\<lparr>slots := filter (\<lambda>p. fst p \<noteq> n) (slots sig)\<rparr>)"
  using disconnect_live [OF assms] by (simp add: destroy_scoped_def)

lemma destroy_moved_from_empty:
  "destroy_scoped (snd (move_connection LeftEmpty c)) s = Inl BadFunctionCall"
  by (simp add: destroy_scoped_def disconnect_def call_erase_func_def move_connection_def
      move_function_def)

lemma disconnect_moved_from_empty:
  "disconnect (snd (move_connection LeftEmpty c)) s = Inl BadFunctionCall"
  by (simp add: disconnect_def call_erase_func_def move_connection_def move_function_def)

text \<open>
  Claim C6 asks that moving a scoped connection hands the one disconnect over to the
  new object, and that destroying both objects disconnects once and fails nowhere.
  The code does not do that. After \<^verbatim>\<open>auto a = sig.scoped_connect(f); auto b = std::move(a);\<close>
  the destructor of \<open>b\<close> removes the slot. The destructor of the moved-from \<open>a\<close>
  calls \<^verbatim>\<open>erase_func()\<close> all the same: where the library left \<open>a\<close> without a target
  it throws \<^verbatim>\<open>std::bad_function_call\<close> (out of a destructor, so the program is
  terminated), before or after \<open>b\<close> is destroyed; where the library left the target in
  \<open>a\<close>, the same iterator is erased a second time.
\<close>

theorem scoped_connection_move_then_destroy:
  "(case scoped_connect (empty_signal :: example_signal) (logging_slot ''A'' 1) of
      (a, s1) \<Rightarrow>
        (case move_connection LeftEmpty a of
           (b, a') \<Rightarrow>
             destroy_scoped b s1 = Inr \<lparr>slots = [], next_node = 1\<rparr>
             \<and> destroy_scoped a' (\<lparr>slots = [], next_node = 1\<rparr> :: example_signal) = Inl BadFunctionCall
             \<and> destroy_scoped a' s1 = Inl BadFunctionCall)
        \<and> (case move_connection LeftTarget a of
           (b, a') \<Rightarrow>
             destroy_scoped b s1 = Inr \<lparr>slots = [], next_node = 1\<rparr>
             \<and> destroy_scoped a' (\<lparr>slots = [], next_node = 1\<rparr> :: example_signal) = Inl InvalidIterator))"
  by (simp add: scoped_connect_def empty_signal_def move_connection_def move_function_def
      destroy_scoped_def disconnect_def call_erase_func_def)


section \<open>Locking policies\<close>

lemma filter_update_length:
  "i < length xs \<Longrightarrow>
     length (filter P (xs[i := y])) + (if P (xs ! i) then 1 else 0)
       = length (filter P xs) + (if P y then 1 else 0)"
proof (induction xs arbitrary: i)
  case Nil
  then show ?case by simp
next
  case (Cons x xs)
  show ?case
  proof (cases i)
    case 0
    then show ?thesis by simp
  next
    case (Suc j)
    with Cons.prems have "j < length xs" by simp
    from Cons.IH [OF this] Suc show ?thesis by simp
  qed
qed

lemma filter_one_index:
  "length (filter P xs) \<le> 1 \<Longrightarrow> i < length xs \<Longrightarrow> j < length xs \<Longrightarrow> P (xs ! i) \<Longrightarrow> P (xs ! j)
     \<Longrightarrow> i = j"
proof (induction xs arbitrary: i j)
  case Nil
  then show ?case by simp
next
  case (Cons x xs)
  show ?case
  proof (cases "P x")
    case True
    with Cons.prems(1) have e: "filter P xs = []" by simp
    have "i = 0"
    proof (rule ccontr)
      assume "i \<noteq> 0"
      then obtain i' where "i = Suc i'" by (cases i) auto
      with Cons.prems have "xs ! i' \<in> set xs" "P (xs ! i')" by simp_all
      then have "xs ! i' \<in> set (filter P xs)" by simp
      with e show False by simp
    qed
    moreover have "j = 0"
    proof (rule ccontr)
      assume "j \<noteq> 0"
      then obtain j' where "j = Suc j'" by (cases j) auto
      with Cons.prems have "xs ! j' \<in> set xs" "P (xs ! j')" by simp_all
      then have "xs ! j' \<in> set (filter P xs)" by simp
      with e show False by simp
    qed
    ultimately show ?thesis by simp
  next
    case False
    with Cons.prems obtain i' j' where ij: "i = Suc i'" "j = Suc j'"
      by (cases i; cases j) auto
    with Cons.prems False have "length (filter P xs) \<le> 1" "i' < length xs" "j' < length xs"
      "P (xs ! i')" "P (xs ! j')" by simp_all
    from Cons.IH [OF this] ij show ?thesis by simp
  qed
qed

lemma filter_none_index:
  "length (filter P xs) = 0 \<Longrightarrow> i < length xs \<Longrightarrow> \<not> P (xs ! i)"
proof
  assume a: "length (filter P xs) = 0" and i: "i < length xs" and p: "P (xs ! i)"
  from i p have "xs ! i \<in> set (filter P xs)" by simp
  with a show False by simp
qed


lemma lock_inv_initial: "lock_inv p (initial n)"
  by (simp add: lock_inv_def initial_def holds_def)

lemma holds_Outside: "\<not> holds p lk Outside"
  by (simp add: holds_def)

lemma holds_Inside: "holds p lk (Inside c) \<longleftrightarrow> locker p c = Some lk"
  by (simp add: holds_def)

lemma lock_inv_step:
  assumes ts: "thread_safe p" and inv: "lock_inv p s" and st: "thread_step p s s'"
  shows "lock_inv p s'"
  using st
proof cases
  case (enter t c)
  let ?ths = "threads s"
  from enter(2,3) have cnt: "length (filter P (?ths[t := Inside c])) = length (filter P ?ths) + (if P (Inside c) then 1 else 0)"
    if "\<not> P Outside" for P
    using filter_update_length [of t ?ths P "Inside c"] that by simp
  have cs: "length (filter (holds p SharedLock) (?ths[t := Inside c]))
      = length (filter (holds p SharedLock) ?ths) + (if locker p c = Some SharedLock then 1 else 0)"
    using cnt [of "holds p SharedLock"] by (simp add: holds_Outside holds_Inside)
  have cu: "length (filter (holds p UniqueLock) (?ths[t := Inside c]))
      = length (filter (holds p UniqueLock) ?ths) + (if locker p c = Some UniqueLock then 1 else 0)"
    using cnt [of "holds p UniqueLock"] by (simp add: holds_Outside holds_Inside)
  show ?thesis
  proof (cases "locker p c")
    case None
    with inv enter(1) cs cu show ?thesis
      by (auto simp: lock_inv_def on_enter_def)
  next
    case (Some lk)
    show ?thesis
    proof (cases lk)
      case UniqueLock
      with Some enter(4) ts have "\<not> exclusive (slots_mutex s)" "shared (slots_mutex s) = 0"
        by (simp_all add: may_enter_def can_lock_def mutex_type_def)
      with inv enter(1) cs cu UniqueLock Some ts show ?thesis
        by (simp add: lock_inv_def on_enter_def do_lock_def mutex_type_def)
    next
      case SharedLock
      with Some enter(4) ts have "\<not> exclusive (slots_mutex s)"
        by (simp add: may_enter_def can_lock_def mutex_type_def)
      with inv enter(1) cs cu SharedLock Some ts show ?thesis
        by (simp add: lock_inv_def on_enter_def do_lock_def mutex_type_def)
    qed
  qed
next
  case (leave t c)
  let ?ths = "threads s"
  from leave(2,3) have cnt: "length (filter P (?ths[t := Outside])) + (if P (Inside c) then 1 else 0) = length (filter P ?ths)"
    if "\<not> P Outside" for P
    using filter_update_length [of t ?ths P Outside] that by simp
  have cs: "length (filter (holds p SharedLock) (?ths[t := Outside])) + (if locker p c = Some SharedLock then 1 else 0)
      = length (filter (holds p SharedLock) ?ths)"
    using cnt [of "holds p SharedLock"] by (simp add: holds_Outside holds_Inside)
  have cu: "length (filter (holds p UniqueLock) (?ths[t := Outside])) + (if locker p c = Some UniqueLock then 1 else 0)
      = length (filter (holds p UniqueLock) ?ths)"
    using cnt [of "holds p UniqueLock"] by (simp add: holds_Outside holds_Inside)
  show ?thesis
  proof (cases "locker p c")
    case None
    with inv leave(1) cs cu show ?thesis
      by (auto simp: lock_inv_def on_leave_def)
  next
    case (Some lk)
    show ?thesis
    proof (cases lk)
      case UniqueLock
      with Some cu have "length (filter (holds p UniqueLock) ?ths) \<ge> 1" by simp
      with inv have ex: "exclusive (slots_mutex s)" by (auto simp: lock_inv_def split: if_splits)
      with inv cs cu UniqueLock Some leave(1) ts show ?thesis
        by (simp add: lock_inv_def on_leave_def do_unlock_def mutex_type_def)
    next
      case SharedLock
      with Some cs have "length (filter (holds p SharedLock) ?ths) \<ge> 1" by simp
      with inv have ex: "\<not> exclusive (slots_mutex s)" by (auto simp: lock_inv_def)
      with inv cs cu SharedLock Some leave(1) ts show ?thesis
        by (auto simp: lock_inv_def on_leave_def do_unlock_def mutex_type_def)
    qed
  qed
qed

lemma thread_step_length: "thread_step p s s' \<Longrightarrow> length (threads s') = length (threads s)"
  by (auto elim: thread_step.cases)

lemma reachable_inv:
  "reachable p n s \<Longrightarrow> thread_safe p \<Longrightarrow> lock_inv p s"
  by (induction rule: reachable.induct) (auto intro: lock_inv_initial lock_inv_step)

lemma reachable_length: "reachable p n s \<Longrightarrow> length (threads s) = n"
  by (induction rule: reachable.induct) (auto simp: initial_def thread_step_length)

lemma exclusive_section_alone:
  assumes "thread_safe p" and "reachable p n s" and "t < length (threads s)"
    and "threads s ! t = Inside c" and "locker p c = Some UniqueLock"
    and "u < length (threads s)" and "u \<noteq> t" and "threads s ! u = Inside d"
  shows "locker p d = None"
proof (rule ccontr)
  assume "locker p d \<noteq> None"
  then obtain lk where lk: "locker p d = Some lk" by auto
  from reachable_inv [OF assms(2,1)] have inv: "lock_inv p s" .
  from assms(4,5) have ht: "holds p UniqueLock (threads s ! t)" by (simp add: holds_Inside)
  have "length (filter (holds p UniqueLock) (threads s)) \<noteq> 0"
    using filter_none_index [of "holds p UniqueLock" "threads s" t] assms(3) ht by blast
  with inv have one: "length (filter (holds p UniqueLock) (threads s)) \<le> 1"
    and none: "length (filter (holds p SharedLock) (threads s)) = 0"
    by (auto simp: lock_inv_def split: if_splits)
  show False
  proof (cases lk)
    case UniqueLock
    with lk assms(8) have "holds p UniqueLock (threads s ! u)" by (simp add: holds_Inside)
    from filter_one_index [OF one assms(6,3) this ht] assms(7) show False by simp
  next
    case SharedLock
    with lk assms(8) have "holds p SharedLock (threads s ! u)" by (simp add: holds_Inside)
    with filter_none_index [OF none assms(6)] show False by simp
  qed
qed

lemma two_emissions_reachable:
  "reachable ktsignal_threadsafe 2
     \<lparr>slots_mutex = \<lparr>exclusive = False, shared = 2\<rparr>, threads = [Inside InEmit, Inside InEmit]\<rparr>"
proof -
  let ?p = ktsignal_threadsafe
  have l: "locker ?p InEmit = Some SharedLock" "mutex_type ?p = SharedMutex"
    by (simp_all add: locker_def emit_locker_def mutex_type_def ktsignal_threadsafe_def)
  have 0: "reachable ?p 2 \<lparr>slots_mutex = \<lparr>exclusive = False, shared = 0\<rparr>, threads = [Outside, Outside]\<rparr>"
    using reachable.start [of ?p 2] by (simp add: initial_def numeral_2_eq_2)
  have "thread_step ?p \<lparr>slots_mutex = \<lparr>exclusive = False, shared = 0\<rparr>, threads = [Outside, Outside]\<rparr>
          \<lparr>slots_mutex = \<lparr>exclusive = False, shared = 1\<rparr>, threads = [Inside InEmit, Outside]\<rparr>"
    using thread_step.enter [of 0 "\<lparr>slots_mutex = \<lparr>exclusive = False, shared = 0\<rparr>, threads = [Outside, Outside]\<rparr>" ?p InEmit]
    by (simp add: l may_enter_def on_enter_def can_lock_def do_lock_def)
  with 0 have 1: "reachable ?p 2 \<lparr>slots_mutex = \<lparr>exclusive = False, shared = 1\<rparr>, threads = [Inside InEmit, Outside]\<rparr>"
    by (rule reachable.after)
  have "thread_step ?p \<lparr>slots_mutex = \<lparr>exclusive = False, shared = 1\<rparr>, threads = [Inside InEmit, Outside]\<rparr>
          \<lparr>slots_mutex = \<lparr>exclusive = False, shared = 2\<rparr>, threads = [Inside InEmit, Inside InEmit]\<rparr>"
    using thread_step.enter [of 1 "\<lparr>slots_mutex = \<lparr>exclusive = False, shared = 1\<rparr>, threads = [Inside InEmit, Outside]\<rparr>" ?p InEmit]
    by (simp add: l may_enter_def on_enter_def can_lock_def do_lock_def numeral_2_eq_2)
  with 1 show ?thesis by (rule reachable.after)
qed

lemma mutation_reachable:
  "reachable ktsignal_threadsafe 2
     \<lparr>slots_mutex = \<lparr>exclusive = True, shared = 0\<rparr>, threads = [Inside InConnect, Outside]\<rparr>"
proof -
  let ?p = ktsignal_threadsafe
  have l: "locker ?p InConnect = Some UniqueLock" "mutex_type ?p = SharedMutex"
    by (simp_all add: locker_def mutex_type_def ktsignal_threadsafe_def)
  have 0: "reachable ?p 2 \<lparr>slots_mutex = \<lparr>exclusive = False, shared = 0\<rparr>, threads = [Outside, Outside]\<rparr>"
    using reachable.start [of ?p 2] by (simp add: initial_def numeral_2_eq_2)
  have "thread_step ?p \<lparr>slots_mutex = \<lparr>exclusive = False, shared = 0\<rparr>, threads = [Outside, Outside]\<rparr>
          \<lparr>slots_mutex = \<lparr>exclusive = True, shared = 0\<rparr>, threads = [Inside InConnect, Outside]\<rparr>"
    using thread_step.enter [of 0 "\<lparr>slots_mutex = \<lparr>exclusive = False, shared = 0\<rparr>, threads = [Outside, Outside]\<rparr>" ?p InConnect]
    by (simp add: l may_enter_def on_enter_def can_lock_def do_lock_def)
  with 0 show ?thesis by (rule reachable.after)
qed

lemma unlocked_overlap_reachable:
  "reachable ktsignal 2
     \<lparr>slots_mutex = \<lparr>exclusive = False, shared = 0\<rparr>, threads = [Inside InConnect, Inside InEmit]\<rparr>"
proof -
  let ?p = ktsignal
  have l: "mutex_type ?p = EmptyMutex" "locker ?p InConnect = Some UniqueLock"
    "locker ?p InEmit = Some SharedLock"
    by (simp_all add: mutex_type_def locker_def emit_locker_def ktsignal_def)
  have 0: "reachable ?p 2 \<lparr>slots_mutex = \<lparr>exclusive = False, shared = 0\<rparr>, threads = [Outside, Outside]\<rparr>"
    using reachable.start [of ?p 2] by (simp add: initial_def numeral_2_eq_2)
  have "thread_step ?p \<lparr>slots_mutex = \<lparr>exclusive = False, shared = 0\<rparr>, threads = [Outside, Outside]\<rparr>
          \<lparr>slots_mutex = \<lparr>exclusive = False, shared = 0\<rparr>, threads = [Inside InConnect, Outside]\<rparr>"
    using thread_step.enter [of 0 "\<lparr>slots_mutex = \<lparr>exclusive = False, shared = 0\<rparr>, threads = [Outside, Outside]\<rparr>" ?p InConnect]
    by (simp add: l may_enter_def on_enter_def can_lock_def do_lock_def)
  with 0 have 1: "reachable ?p 2 \<lparr>slots_mutex = \<lparr>exclusive = False, shared = 0\<rparr>, threads = [Inside InConnect, Outside]\<rparr>"
    by (rule reachable.after)
  have "thread_step ?p \<lparr>slots_mutex = \<lparr>exclusive = False, shared = 0\<rparr>, threads = [Inside InConnect, Outside]\<rparr>
          \<lparr>slots_mutex = \<lparr>exclusive = False, shared = 0\<rparr>, threads = [Inside InConnect, Inside InEmit]\<rparr>"
    using thread_step.enter [of 1 "\<lparr>slots_mutex = \<lparr>exclusive = False, shared = 0\<rparr>, threads = [Inside InConnect, Outside]\<rparr>" ?p InEmit]
    by (simp add: l may_enter_def on_enter_def can_lock_def do_lock_def)
  with 1 show ?thesis by (rule reachable.after)
qed

lemma unlocked_advance_overlaps:
  "reachable ktsignal_threadsafe 2
     \<lparr>slots_mutex = \<lparr>exclusive = True, shared = 0\<rparr>, threads = [Inside InErase, Inside InAdvance]\<rparr>"
proof -
  let ?p = ktsignal_threadsafe
  have l: "locker ?p InErase = Some UniqueLock" "mutex_type ?p = SharedMutex"
    "locker ?p InAdvance = None"
    by (simp_all add: locker_def mutex_type_def ktsignal_threadsafe_def)
  have 0: "reachable ?p 2 \<lparr>slots_mutex = \<lparr>exclusive = False, shared = 0\<rparr>, threads = [Outside, Outside]\<rparr>"
    using reachable.start [of ?p 2] by (simp add: initial_def numeral_2_eq_2)
  have "thread_step ?p \<lparr>slots_mutex = \<lparr>exclusive = False, shared = 0\<rparr>, threads = [Outside, Outside]\<rparr>
          \<lparr>slots_mutex = \<lparr>exclusive = True, shared = 0\<rparr>, threads = [Inside InErase, Outside]\<rparr>"
    using thread_step.enter [of 0 "\<lparr>slots_mutex = \<lparr>exclusive = False, shared = 0\<rparr>, threads = [Outside, Outside]\<rparr>" ?p InErase]
    by (simp add: l may_enter_def on_enter_def can_lock_def do_lock_def)
  with 0 have 1: "reachable ?p 2 \<lparr>slots_mutex = \<lparr>exclusive = True, shared = 0\<rparr>, threads = [Inside InErase, Outside]\<rparr>"
    by (rule reachable.after)
  have "thread_step ?p \<lparr>slots_mutex = \<lparr>exclusive = True, shared = 0\<rparr>, threads = [Inside InErase, Outside]\<rparr>
          \<lparr>slots_mutex = \<lparr>exclusive = True, shared = 0\<rparr>, threads = [Inside InErase, Inside InAdvance]\<rparr>"
    using thread_step.enter [of 1 "\<lparr>slots_mutex = \<lparr>exclusive = True, shared = 0\<rparr>, threads = [Inside InErase, Outside]\<rparr>" ?p InAdvance]
    by (simp add: l may_enter_def on_enter_def)
  with 1 show ?thesis by (rule reachable.after)
qed

text \<open>
  Claim C9. With \<^verbatim>\<open>ktsignal_threadsafe\<close> (\<^verbatim>\<open>thread_safe = true\<close>,
  \<^verbatim>\<open>emit_thread_safe = false\<close>) the mutex is a \<^verbatim>\<open>std::shared_mutex\<close>; \<^verbatim>\<open>connect\<close> and
  the erase action of \<^verbatim>\<open>disconnect\<close> hold it exclusively and \<^verbatim>\<open>emit\<close> holds it shared.
  In every state that any number of threads can reach, while one thread is inside a
  mutation no other thread is inside \<^verbatim>\<open>emit\<close>, inside \<^verbatim>\<open>operator*\<close> or inside another
  mutation; and two threads can be inside \<^verbatim>\<open>emit\<close> at the same time. (The steps of
  result iteration that take no lock are not covered: \<open>unlocked_advance_overlaps\<close>.)
\<close>

theorem shared_emission_locking:
  "mutex_type ktsignal_threadsafe = SharedMutex
   \<and> locker ktsignal_threadsafe InConnect = Some UniqueLock
   \<and> locker ktsignal_threadsafe InErase = Some UniqueLock
   \<and> locker ktsignal_threadsafe InEmit = Some SharedLock
   \<and> (\<forall>n s t c u d. reachable ktsignal_threadsafe n s \<longrightarrow> t < length (threads s)
          \<longrightarrow> threads s ! t = Inside c \<longrightarrow> mutates c
          \<longrightarrow> u < length (threads s) \<longrightarrow> u \<noteq> t \<longrightarrow> threads s ! u = Inside d
          \<longrightarrow> \<not> emits d \<and> \<not> mutates d)
   \<and> (\<exists>s. reachable ktsignal_threadsafe 2 s \<and> threads s = [Inside InEmit, Inside InEmit])"
proof -
  let ?p = ktsignal_threadsafe
  have ts: "thread_safe ?p" by (simp add: ktsignal_threadsafe_def)
  have k: "mutex_type ?p = SharedMutex" "locker ?p InConnect = Some UniqueLock"
    "locker ?p InErase = Some UniqueLock" "locker ?p InEmit = Some SharedLock"
    by (simp_all add: mutex_type_def locker_def emit_locker_def ktsignal_threadsafe_def)
  have m: "\<not> emits d \<and> \<not> mutates d"
    if "reachable ?p n s" "t < length (threads s)" "threads s ! t = Inside c" "mutates c"
      "u < length (threads s)" "u \<noteq> t" "threads s ! u = Inside d" for n s t c u d
  proof -
    from that(4) have "locker ?p c = Some UniqueLock"
      by (cases c) (simp_all add: mutates_def locker_def)
    from exclusive_section_alone [OF ts that(1,2,3) this that(5,6,7)]
    have "locker ?p d = None" .
    then show ?thesis by (cases d) (simp_all add: locker_def emits_def mutates_def)
  qed
  have e: "\<exists>s. reachable ?p 2 s \<and> threads s = [Inside InEmit, Inside InEmit]"
    by (rule exI [of _ "\<lparr>slots_mutex = \<lparr>exclusive = False, shared = 2\<rparr>,
          threads = [Inside InEmit, Inside InEmit]\<rparr>"])
      (simp add: two_emissions_reachable)
  from k m e show ?thesis by blast
qed

theorem shared_emission_locking_witness:
  "reachable ktsignal_threadsafe 2
     \<lparr>slots_mutex = \<lparr>exclusive = True, shared = 0\<rparr>, threads = [Inside InConnect, Outside]\<rparr>
   \<and> mutates InConnect
   \<and> (\<forall>m. \<not> reachable ktsignal_threadsafe 2
          \<lparr>slots_mutex = m, threads = [Inside InConnect, Inside InEmit]\<rparr>)"
proof -
  have r: "reachable ktsignal_threadsafe 2
     \<lparr>slots_mutex = \<lparr>exclusive = True, shared = 0\<rparr>, threads = [Inside InConnect, Outside]\<rparr>"
    by (rule mutation_reachable)
  have mu: "mutates InConnect" by (simp add: mutates_def)
  have "\<not> reachable ktsignal_threadsafe 2 \<lparr>slots_mutex = m, threads = [Inside InConnect, Inside InEmit]\<rparr>"
    for m
  proof
    let ?s = "\<lparr>slots_mutex = m, threads = [Inside InConnect, Inside InEmit]\<rparr>"
    assume a: "reachable ktsignal_threadsafe 2 ?s"
    have "0 < length (threads ?s)" "threads ?s ! 0 = Inside InConnect"
      "1 < length (threads ?s)" "(1::nat) \<noteq> 0" "threads ?s ! 1 = Inside InEmit" by simp_all
    with shared_emission_locking a mu have "\<not> emits InEmit" by blast
    then show False by (simp add: emits_def)
  qed
  with r mu show ?thesis by blast
qed


section \<open>Forwarding an rvalue to by-value slots\<close>

text \<open>
  \<^verbatim>\<open>emit\<close> applies \<^verbatim>\<open>std::forward<Args>\<close> to the same argument in every round of its
  loop. With \<^verbatim>\<open>sig.emit(std::string("abc"))\<close> on a signal of type \<^verbatim>\<open>void(std::string)\<close>
  the parameter of the first slot is move-constructed from the caller's string, and the
  second slot receives what the move left. Passed as an lvalue, to \<^verbatim>\<open>emit\<close> or to
  \<^verbatim>\<open>emit_iterate\<close>, whose \<^verbatim>\<open>operator*\<close> passes lvalues, both slots receive "abc".
\<close>

lemma two_string_slots_eq:
  "two_string_slots = \<lparr>slots = [(0, string_logger), (1, string_logger)], next_node = 2\<rparr>"
  by (simp add: two_string_slots_def connect_def empty_signal_def)

theorem emit_moves_from_rvalue_argument:
  "emit string_by_value Rvalue two_string_slots ''abc'' []
     = (None, \<lparr>args = [], world = [''abc'', []], calls = [(0, ''abc''), (1, [])]\<rparr>)
   \<and> emit string_by_value Lvalue two_string_slots ''abc'' []
     = (None, \<lparr>args = ''abc'', world = [''abc'', ''abc''], calls = [(0, ''abc''), (1, ''abc'')]\<rparr>)
   \<and> range_for 2 string_by_value Lvalue two_string_slots
        \<lparr>args = ''abc'', world = [], calls = []\<rparr>
     = Inr (None, [(), ()], \<lparr>iter = AtEnd\<rparr>,
            \<lparr>args = ''abc'', world = [''abc'', ''abc''], calls = [(0, ''abc''), (1, ''abc'')]\<rparr>)"
  by (simp add: two_string_slots_eq emit_def call_slot_def invoke_def string_by_value_def
      string_logger_def numeral_2_eq_2 range_for_def in_range_for_def iterate_begin_def
      iterate_end_def list_begin_def deref_def advance_def)

end
